theory Spec2Isabelle
  imports Main "HOL-Library.AList"
begin

section \<open>Events, Python values and errors\<close>

text \<open>
  The module \<^verbatim>\<open>ijson/common.py\<close> works on \<^emph>\<open>basic events\<close>, pairs \<^verbatim>\<open>(event, value)\<close>
  produced by a tokenizer backend.  The docstring of \<^verbatim>\<open>parse\<close> lists the pairs that exist:
  \<^verbatim>\<open>('null', None)\<close>, \<^verbatim>\<open>('boolean', b)\<close>, \<^verbatim>\<open>('number', n)\<close>, \<^verbatim>\<open>('string', s)\<close>,
  \<^verbatim>\<open>('map_key', k)\<close>, \<^verbatim>\<open>('start_map', None)\<close>, \<^verbatim>\<open>('end_map', None)\<close>,
  \<^verbatim>\<open>('start_array', None)\<close>, \<^verbatim>\<open>('end_array', None)\<close>.
  One constructor stands for each pair.  Numbers are integers (the code never inspects a
  number, so a \<^verbatim>\<open>Decimal\<close> fares as an integer does); strings are character lists.
\<close>

datatype event =
    null_ev
  | boolean bool
  | number int
  | string_ev string
  | map_key string
  | start_map
  | end_map
  | start_array
  | end_array

text \<open>
  Python values as the code handles them: scalars, references to mutable containers kept in
  a store, and the generator object that \<^verbatim>\<open>ijsondict\<close> puts into its skeleton.  A dictionary
  is represented by an association list with unique keys, and \<^verbatim>\<open>d[k] = v\<close> is
  \<^const>\<open>AList.update\<close>: an existing key keeps its position, a new key goes to the end.  The
  list so records the keys in the order of their first insertion.  That order belongs to the
  representation: the module is Python 2 code (\<^verbatim>\<open>basestring\<close>, the \<^verbatim>\<open>print\<close> statement of the
  docstrings), and a Python 2 dictionary lists its keys in an order of the interpreter's own.
  What a dictionary holds is the mapping \<^const>\<open>map_of\<close> of the list; the order in which it
  lists its keys is a parameter (\<open>key_order\<close>, below).
\<close>

datatype pyval =
    PNone
  | PBool bool
  | PNum int
  | PStr string
  | PRef nat
  | PGen

datatype pyobj =
    PDict "(string \<times> pyval) list"
  | PList "pyval list"

type_synonym heap = "pyobj list"

text \<open>The second component of a basic event, \<^verbatim>\<open>value\<close>.\<close>

fun event_value :: "event \<Rightarrow> pyval" where
  "event_value null_ev = PNone"
| "event_value (boolean b) = PBool b"
| "event_value (number n) = PNum n"
| "event_value (string_ev s) = PStr s"
| "event_value (map_key k) = PStr k"
| "event_value start_map = PNone"
| "event_value end_map = PNone"
| "event_value start_array = PNone"
| "event_value end_array = PNone"

text \<open>\<^verbatim>\<open>token.startswith('start_')\<close>, \<^verbatim>\<open>token.startswith('end_')\<close>.\<close>

fun is_start :: "event \<Rightarrow> bool" where
  "is_start start_map = True"
| "is_start start_array = True"
| "is_start _ = False"

fun is_end :: "event \<Rightarrow> bool" where
  "is_end end_map = True"
| "is_end end_array = True"
| "is_end _ = False"

text \<open>The remaining events, those of the final \<^verbatim>\<open>else\<close> branches (``any scalar value'').\<close>

fun is_scalar :: "event \<Rightarrow> bool" where
  "is_scalar null_ev = True"
| "is_scalar (boolean b) = True"
| "is_scalar (number n) = True"
| "is_scalar (string_ev s) = True"
| "is_scalar _ = False"

text \<open>
  The exceptions the code can raise: \<^verbatim>\<open>IndexError\<close> (\<^verbatim>\<open>xs[-1]\<close> and \<^verbatim>\<open>xs.pop()\<close> on an empty
  list), \<^verbatim>\<open>TypeError\<close> (\<^verbatim>\<open>'.'.join\<close> over a list holding \<^verbatim>\<open>None\<close>), \<^verbatim>\<open>AttributeError\<close> (reading
  an attribute never set, \<^verbatim>\<open>append\<close> on an object that has none), and the module's own
  \<^verbatim>\<open>IncompleteJSONError\<close>, a subclass of \<^verbatim>\<open>JSONError\<close> raised nowhere in this module.
\<close>

datatype error = IndexError | TypeError | AttributeError | IncompleteJSONError

section \<open>The path annotator: \<^verbatim>\<open>parse\<close>\<close>

text \<open>
  \<^verbatim>\<open>
  def parse(basic_events):
      path = []
      for event, value in basic_events:
          if event == 'map_key':
              prefix = '.'.join(path[:-1])
              path[-1] = value
          elif event == 'start_map':
              prefix = '.'.join(path)
              path.append(None)
          elif event == 'end_map':
              path.pop()
              prefix = '.'.join(path)
          elif event == 'start_array':
              prefix = '.'.join(path)
              path.append('item')
          elif event == 'end_array':
              path.pop()
              prefix = '.'.join(path)
          else: # any scalar value
              prefix = '.'.join(path)
          yield prefix, event, value
  \<close>
  The path is a Python list whose top is its last element; a segment is a string or
  \<^verbatim>\<open>None\<close>.
\<close>

type_synonym path = "string option list"

fun join_str :: "string list \<Rightarrow> string" where
  "join_str [] = []"
| "join_str [x] = x"
| "join_str (x # y # ys) = x @ ''.'' @ join_str (y # ys)"

text \<open>\<^verbatim>\<open>'.'.join(path)\<close> raises \<^verbatim>\<open>TypeError\<close> when an element is not a string.\<close>

definition join :: "path \<Rightarrow> error + string" where
  "join p = (if None \<in> set p then Inl TypeError else Inr (join_str (map the p)))"

text \<open>One iteration of the loop: the prefix to emit and the new path, or the exception.\<close>

fun parse_step :: "event \<Rightarrow> path \<Rightarrow> error + (string \<times> path)" where
  "parse_step (map_key k) p =
     (case join (butlast p) of
        Inl e \<Rightarrow> Inl e
      | Inr prefix \<Rightarrow> if p = [] then Inl IndexError else Inr (prefix, butlast p @ [Some k]))"
| "parse_step start_map p =
     (case join p of Inl e \<Rightarrow> Inl e | Inr prefix \<Rightarrow> Inr (prefix, p @ [None]))"
| "parse_step end_map p =
     (if p = [] then Inl IndexError
      else case join (butlast p) of Inl e \<Rightarrow> Inl e | Inr prefix \<Rightarrow> Inr (prefix, butlast p))"
| "parse_step start_array p =
     (case join p of Inl e \<Rightarrow> Inl e | Inr prefix \<Rightarrow> Inr (prefix, p @ [Some ''item'']))"
| "parse_step end_array p =
     (if p = [] then Inl IndexError
      else case join (butlast p) of Inl e \<Rightarrow> Inl e | Inr prefix \<Rightarrow> Inr (prefix, butlast p))"
| "parse_step ev p =
     (case join p of Inl e \<Rightarrow> Inl e | Inr prefix \<Rightarrow> Inr (prefix, p))"

text \<open>
  A generator is modelled by what its consumer sees: the items yielded, in order, and then
  either normal exhaustion (\<open>None\<close>) or the exception that ended it.  A prefixed event
  \<^verbatim>\<open>(prefix, event, value)\<close> is the prefix with the basic event.
\<close>

type_synonym prefixed_event = "string \<times> event"

fun parse_from :: "path \<Rightarrow> event list \<Rightarrow> prefixed_event list \<times> error option" where
  "parse_from p [] = ([], None)"
| "parse_from p (ev # evs) =
     (case parse_step ev p of
        Inl e \<Rightarrow> ([], Some e)
      | Inr (prefix, p') \<Rightarrow>
          (case parse_from p' evs of (out, r) \<Rightarrow> ((prefix, ev) # out, r)))"

definition parse :: "event list \<Rightarrow> prefixed_event list \<times> error option" where
  "parse basic_events = parse_from [] basic_events"

text \<open>The path stack after the loop has consumed the events (none when it raised).\<close>

fun path_after :: "path \<Rightarrow> event list \<Rightarrow> path option" where
  "path_after p [] = Some p"
| "path_after p (ev # evs) =
     (case parse_step ev p of Inl e \<Rightarrow> None | Inr (prefix, p') \<Rightarrow> path_after p' evs)"

section \<open>The tree builder: \<^verbatim>\<open>ObjectBuilder\<close>\<close>

text \<open>
  \<^verbatim>\<open>
  class ObjectBuilder(object):
      def __init__(self):
          def initial_set(value):
              self.value = value
          self.containers = [initial_set]

      def event(self, event, value):
          if event == 'map_key':
              self.key = value
          elif event == 'start_map':
              map = {}
              self.containers[-1](map)
              def setter(value):
                  map[self.key] = value
              self.containers.append(setter)
          elif event == 'start_array':
              array = []
              self.containers[-1](array)
              self.containers.append(array.append)
          elif event == 'end_array' or event == 'end_map':
              self.containers.pop()
          else:
              self.containers[-1](value)
  \<close>
  The builder mutates dictionaries and lists that are shared between the value under
  construction and the closures on \<^verbatim>\<open>self.containers\<close>, so they live in a store: a list of
  objects, an object's address being its index, a new object going to the end.  A closure is
  one of three kinds: \<^verbatim>\<open>initial_set\<close>, the \<^verbatim>\<open>setter\<close> of the dictionary at an address (it
  reads \<^verbatim>\<open>self.key\<close> when called), and the bound method \<^verbatim>\<open>append\<close> of the list at an address.
  The attributes \<^verbatim>\<open>value\<close> and \<^verbatim>\<open>key\<close> do not exist until first assigned; they are the
  fields \<open>ob_value\<close> and \<open>ob_key\<close>, and \<open>ob_heap\<close> is the store.
\<close>

datatype slot = initial_set | setter nat | append_to nat

record ObjectBuilder =
  ob_value :: "pyval option"
  ob_key :: "string option"
  containers :: "slot list"
  ob_heap :: heap

definition ObjectBuilder_init :: ObjectBuilder where
  "ObjectBuilder_init =
     \<lparr>ob_value = None, ob_key = None, containers = [initial_set], ob_heap = []\<rparr>"

text \<open>
  Calling a closure.  The address a closure holds is that of the dictionary (or list) it was
  made for; the other cases of the store lookup cannot arise and are given as \<^verbatim>\<open>TypeError\<close>.
\<close>

fun call_slot :: "slot \<Rightarrow> pyval \<Rightarrow> ObjectBuilder \<Rightarrow> error + ObjectBuilder" where
  "call_slot initial_set v b = Inr (b\<lparr>ob_value := Some v\<rparr>)"
| "call_slot (setter a) v b =
     (case ob_key b of
        None \<Rightarrow> Inl AttributeError
      | Some k \<Rightarrow>
          (if a < length (ob_heap b) then
             (case ob_heap b ! a of
                PDict d \<Rightarrow> Inr (b\<lparr>ob_heap := (ob_heap b)[a := PDict (AList.update k v d)]\<rparr>)
              | PList xs \<Rightarrow> Inl TypeError)
           else Inl TypeError))"
| "call_slot (append_to a) v b =
     (if a < length (ob_heap b) then
        (case ob_heap b ! a of
           PList xs \<Rightarrow> Inr (b\<lparr>ob_heap := (ob_heap b)[a := PList (xs @ [v])]\<rparr>)
         | PDict d \<Rightarrow> Inl TypeError)
      else Inl TypeError)"

text \<open>\<^verbatim>\<open>self.containers[-1](v)\<close>: \<^verbatim>\<open>IndexError\<close> on an empty list.\<close>

definition call_top :: "pyval \<Rightarrow> ObjectBuilder \<Rightarrow> error + ObjectBuilder" where
  "call_top v b =
     (if containers b = [] then Inl IndexError else call_slot (last (containers b)) v b)"

fun ObjectBuilder_event :: "event \<Rightarrow> ObjectBuilder \<Rightarrow> error + ObjectBuilder" where
  "ObjectBuilder_event (map_key k) b = Inr (b\<lparr>ob_key := Some k\<rparr>)"
| "ObjectBuilder_event start_map b =
     (let a = length (ob_heap b) in
      case call_top (PRef a) (b\<lparr>ob_heap := ob_heap b @ [PDict []]\<rparr>) of
        Inl e \<Rightarrow> Inl e
      | Inr b' \<Rightarrow> Inr (b'\<lparr>containers := containers b' @ [setter a]\<rparr>))"
| "ObjectBuilder_event start_array b =
     (let a = length (ob_heap b) in
      case call_top (PRef a) (b\<lparr>ob_heap := ob_heap b @ [PList []]\<rparr>) of
        Inl e \<Rightarrow> Inl e
      | Inr b' \<Rightarrow> Inr (b'\<lparr>containers := containers b' @ [append_to a]\<rparr>))"
| "ObjectBuilder_event end_array b =
     (if containers b = [] then Inl IndexError
      else Inr (b\<lparr>containers := butlast (containers b)\<rparr>))"
| "ObjectBuilder_event end_map b =
     (if containers b = [] then Inl IndexError
      else Inr (b\<lparr>containers := butlast (containers b)\<rparr>))"
| "ObjectBuilder_event ev b = call_top (event_value ev) b"

text \<open>Feeding events in order, as a caller's loop does; the first exception ends it.\<close>

fun feed :: "event list \<Rightarrow> ObjectBuilder \<Rightarrow> error + ObjectBuilder" where
  "feed [] b = Inr b"
| "feed (ev # evs) b = (case ObjectBuilder_event ev b of Inl e \<Rightarrow> Inl e | Inr b' \<Rightarrow> feed evs b')"

section \<open>JSON values and their relation to the store\<close>

text \<open>
  The value a document denotes (the spec's \<open>Value\<close>): a tree.  An object lists its members
  in the order in which the document gives them, so it can hold a key more than once; the
  members a Python dictionary keeps are those of \<^const>\<open>AList.update\<close>.
\<close>

datatype json =
    JNull
  | JBool bool
  | JNum int
  | JStr string
  | JArr "json list"
  | JObj "(string \<times> json) list"

text \<open>
  Reading a Python value out of the store as a tree.  A store can be cyclic, so the
  reading is bounded by a fuel; the generator object is no JSON value.  The members of a
  dictionary are read in the order of the representation, the order of first insertion.
\<close>

fun reify :: "nat \<Rightarrow> heap \<Rightarrow> pyval \<Rightarrow> json option" where
  "reify n h PNone = Some JNull"
| "reify n h (PBool b) = Some (JBool b)"
| "reify n h (PNum i) = Some (JNum i)"
| "reify n h (PStr s) = Some (JStr s)"
| "reify n h PGen = None"
| "reify 0 h (PRef a) = None"
| "reify (Suc n) h (PRef a) =
     (if a < length h then
        (case h ! a of
           PList xs \<Rightarrow> map_option JArr (those (map (reify n h) xs))
         | PDict d \<Rightarrow>
             map_option JObj (those (map (\<lambda>kv. map_option (Pair (fst kv)) (reify n h (snd kv))) d)))
      else None)"

text \<open>
  \<^verbatim>\<open>builder.value\<close> as a tree: none when the attribute was never set.  No chain of distinct
  references is longer than the store, so its length is fuel enough.
\<close>

definition builder_value :: "ObjectBuilder \<Rightarrow> json option" where
  "builder_value b =
     (case ob_value b of None \<Rightarrow> None | Some v \<Rightarrow> reify (length (ob_heap b)) (ob_heap b) v)"

text \<open>
  The flat event sequence that encodes a value (the input contract of the spec, section 6):
  a scalar is one event, an array is \<^verbatim>\<open>start_array\<close>, its elements, \<^verbatim>\<open>end_array\<close>, an
  object is \<^verbatim>\<open>start_map\<close>, each key as \<^verbatim>\<open>map_key\<close> followed by its value, \<^verbatim>\<open>end_map\<close>.
\<close>

fun events_of :: "json \<Rightarrow> event list" where
  "events_of JNull = [null_ev]"
| "events_of (JBool b) = [boolean b]"
| "events_of (JNum i) = [number i]"
| "events_of (JStr s) = [string_ev s]"
| "events_of (JArr vs) = start_array # concat (map events_of vs) @ [end_array]"
| "events_of (JObj kvs) =
     start_map # concat (map (\<lambda>kv. map_key (fst kv) # events_of (snd kv)) kvs) @ [end_map]"

text \<open>No object of the value, at any depth, has a key twice.\<close>

fun distinct_keys :: "json \<Rightarrow> bool" where
  "distinct_keys (JArr vs) = list_all distinct_keys vs"
| "distinct_keys (JObj kvs) =
     (distinct (map fst kvs) \<and> list_all (\<lambda>kv. distinct_keys (snd kv)) kvs)"
| "distinct_keys v = True"

text \<open>
  What a dictionary-backed reading of a document keeps: in every object, each key once, at
  the position of its first occurrence, with the value of its last occurrence.
\<close>

fun last_wins :: "json \<Rightarrow> json" where
  "last_wins (JArr vs) = JArr (map last_wins vs)"
| "last_wins (JObj kvs) =
     JObj (foldl (\<lambda>d kv. AList.update (fst kv) (last_wins (snd kv)) d) [] kvs)"
| "last_wins v = v"

text \<open>
  The order in which a dictionary lists its keys.  The interpreter decides it (in CPython 2
  by the hash of the keys and the history of the table); the code of the module has no say
  in it.  It is a parameter: a function from the keys in the order of their first insertion
  to the keys in the order in which the dictionary lists them.  Every such function gives
  each key once.
\<close>

type_synonym key_order = "string list \<Rightarrow> string list"

definition iteration_order :: "key_order \<Rightarrow> bool" where
  "iteration_order ord \<longleftrightarrow>
     (\<forall>ks. distinct ks \<longrightarrow> distinct (ord ks) \<and> set (ord ks) = set ks)"

text \<open>
  A tree as the interpreter lists it: the members of every object in the order \<open>ord\<close> gives
  to its keys.
\<close>

fun listed :: "key_order \<Rightarrow> json \<Rightarrow> json" where
  "listed ord (JArr vs) = JArr (map (listed ord) vs)"
| "listed ord (JObj kvs) =
     JObj (map (\<lambda>k. (k, the (map_of (map (\<lambda>kv. (fst kv, listed ord (snd kv))) kvs) k)))
               (ord (map fst kvs)))"
| "listed ord v = v"

text \<open>\<^verbatim>\<open>builder.value\<close> as the interpreter lists it.\<close>

definition value_listed :: "key_order \<Rightarrow> ObjectBuilder \<Rightarrow> json option" where
  "value_listed ord b = map_option (listed ord) (builder_value b)"

text \<open>
  Two trees are the same value when they have the same scalars, their arrays have the same
  elements in the same order, and their objects have the same keys with, under each key, the
  same value; the order of the members of an object does not count.  (For objects without
  repeated keys.)
\<close>

fun same_value :: "json \<Rightarrow> json \<Rightarrow> bool" where
  "same_value (JArr xs) (JArr ys) = list_all2 same_value xs ys"
| "same_value (JObj a) (JObj b) =
     (set (map fst a) = set (map fst b) \<and>
      (\<forall>kv \<in> set a. \<forall>kv' \<in> set b. fst kv = fst kv' \<longrightarrow> same_value (snd kv) (snd kv')))"
| "same_value JNull JNull = True"
| "same_value (JBool x) (JBool y) = (x = y)"
| "same_value (JNum x) (JNum y) = (x = y)"
| "same_value (JStr x) (JStr y) = (x = y)"
| "same_value x y = False"

section \<open>The prefix item extractor: \<^verbatim>\<open>items\<close>\<close>

text \<open>
  \<^verbatim>\<open>
  def items(prefixed_events, prefix):
      prefixed_events = iter(prefixed_events)
      try:
          while True:
              current, event, value = next(prefixed_events)
              if current == prefix:
                  if event in ('start_map', 'start_array'):
                      builder = ObjectBuilder()
                      end_event = event.replace('start', 'end')
                      while (current, event) != (prefix, end_event):
                          builder.event(event, value)
                          current, event, value = next(prefixed_events)
                      yield builder.value
                  else:
                      yield value
      except StopIteration:
          pass
  \<close>
  The iterator is the list of prefixed events still to come.  A yielded object is given with
  the store it lives in: a scalar with the empty store, \<^verbatim>\<open>builder.value\<close> with the store of
  its builder.
\<close>

text \<open>\<^verbatim>\<open>event.replace('start', 'end')\<close>; it leaves an event name without \<^verbatim>\<open>start\<close> as it is.\<close>

fun end_of :: "event \<Rightarrow> event" where
  "end_of start_map = end_map"
| "end_of start_array = end_array"
| "end_of ev = ev"

text \<open>
  The inner \<^verbatim>\<open>while\<close> loop, entered with the event just read and the rest of the iterator.
  It ends with the builder and the events left, or because \<^verbatim>\<open>next\<close> raised \<^verbatim>\<open>StopIteration\<close>,
  or with an exception of \<^verbatim>\<open>builder.event\<close>.
\<close>

datatype region = Built ObjectBuilder "prefixed_event list" | Exhausted | Raised error

fun build_region ::
  "string \<Rightarrow> event \<Rightarrow> ObjectBuilder \<Rightarrow> prefixed_event \<Rightarrow> prefixed_event list \<Rightarrow> region" where
  "build_region prefix end_event b pe rest =
     (if pe \<noteq> (prefix, end_event) then
        (case ObjectBuilder_event (snd pe) b of
           Inl e \<Rightarrow> Raised e
         | Inr b' \<Rightarrow>
             (case rest of
                [] \<Rightarrow> Exhausted
              | pe' # rest' \<Rightarrow> build_region prefix end_event b' pe' rest'))
      else Built b rest)"

declare build_region.simps [simp del]

lemma build_region_length:
  "build_region prefix end_event b pe rest = Built b' rest' \<Longrightarrow> length rest' \<le> length rest"
proof (induction rest arbitrary: b pe)
  case Nil
  then show ?case
    by (subst (asm) build_region.simps) (auto split: if_splits sum.splits)
next
  case (Cons pe' rest)
  from Cons.prems show ?case
    by (subst (asm) build_region.simps) (auto split: if_splits sum.splits dest: Cons.IH)
qed

text \<open>
  The outer loop.  \<^verbatim>\<open>StopIteration\<close> ends the generator normally wherever \<^verbatim>\<open>next\<close> raised it;
  \<^verbatim>\<open>builder.value\<close> raises \<^verbatim>\<open>AttributeError\<close> when the attribute was never set.
\<close>

function items :: "prefixed_event list \<Rightarrow> string \<Rightarrow> (pyval \<times> heap) list \<times> error option" where
  "items [] prefix = ([], None)"
| "items (pe # rest) prefix =
     (if fst pe = prefix then
        (if snd pe = start_map \<or> snd pe = start_array then
           (case build_region prefix (end_of (snd pe)) ObjectBuilder_init pe rest of
              Raised e \<Rightarrow> ([], Some e)
            | Exhausted \<Rightarrow> ([], None)
            | Built b rest' \<Rightarrow>
                (case ob_value b of
                   None \<Rightarrow> ([], Some AttributeError)
                 | Some v \<Rightarrow>
                     (case items rest' prefix of (out, r) \<Rightarrow> ((v, ob_heap b) # out, r))))
         else
           (case items rest prefix of (out, r) \<Rightarrow> ((event_value (snd pe), []) # out, r)))
      else items rest prefix)"
  by pat_completeness auto
termination
  by (relation "measure (\<lambda>(evs, prefix). length evs)")
     (auto dest: build_region_length)

text \<open>A yielded object read as a tree.\<close>

definition as_json :: "pyval \<times> heap \<Rightarrow> json option" where
  "as_json y = reify (length (snd y)) (snd y) (fst y)"

section \<open>The hybrid lazy structure: \<^verbatim>\<open>ijsondict\<close>\<close>

text \<open>
  \<^verbatim>\<open>
  class ijsondict(dict):
      classmap = {'start_map':dict, 'start_array':list}
      def __init__(self, parser, prefix, **kwargs):
          self.keys_stack = []
          self.data_stack = []

          if isinstance(prefix, basestring):
              self.prefix = prefix.split('.')
          elif isinstance(prefix, list):
              self.prefix = prefix
          else:
              raise ValueError
          self._start_parse(parser)
  \<close>
  The object is itself a dictionary: it is the object at address 0 of the store.  The
  generator object that \<^verbatim>\<open>_json_generator\<close> returns is the value \<^const>\<open>PGen\<close>.  The record
  holds the attributes, the store, and the local variables \<^verbatim>\<open>first\<close> of \<^verbatim>\<open>_start_parse\<close> and
  \<^verbatim>\<open>yield_flag\<close> of \<^verbatim>\<open>_json_generator\<close>.  The attribute \<^verbatim>\<open>self.prefix\<close> is the field \<open>target\<close>
  (the name \<open>prefix\<close> stays with the parameter of \<^verbatim>\<open>items\<close>).  The argument \<^verbatim>\<open>prefix\<close> of
  the constructor is a string or a list of strings; any other type raises \<^verbatim>\<open>ValueError\<close>
  before an event is read.
\<close>

record ijsondict =
  keys_stack :: "string list"
  data_stack :: "pyval list"
  target :: "string list"
  store :: heap
  first :: bool
  yield_flag :: bool

text \<open>\<^verbatim>\<open>prefix.split('.')\<close>.\<close>

fun split_dot :: "string \<Rightarrow> string list" where
  "split_dot [] = [[]]"
| "split_dot (c # cs) =
     (if c = CHR ''.'' then [] # split_dot cs
      else (case split_dot cs of [] \<Rightarrow> [[c]] | w # ws \<Rightarrow> (c # w) # ws))"

definition ijsondict_init :: "string + string list \<Rightarrow> ijsondict" where
  "ijsondict_init prefix =
     \<lparr>keys_stack = [], data_stack = [],
      target = (case prefix of Inl str \<Rightarrow> split_dot str | Inr segs \<Rightarrow> segs),
      store = [PDict []], first = True, yield_flag = False\<rparr>"

text \<open>\<^verbatim>\<open>self.classmap[token]()\<close>: a new empty dictionary or list.\<close>

fun classmap :: "event \<Rightarrow> pyobj" where
  "classmap start_map = PDict []"
| "classmap ev = PList []"

text \<open>
  \<^verbatim>\<open>
  if isinstance(thisdata, dict):
      thisdata[thiskey] = this
  else:
      thisdata.append(this)
  \<close>
  An object that is neither a dictionary nor a list (the generator object) has no
  \<^verbatim>\<open>append\<close>.
\<close>

definition link :: "pyval \<Rightarrow> string \<Rightarrow> pyval \<Rightarrow> heap \<Rightarrow> error + heap" where
  "link thisdata thiskey this h =
     (case thisdata of
        PRef a \<Rightarrow>
          (if a < length h then
             (case h ! a of
                PDict d \<Rightarrow> Inr (h[a := PDict (AList.update thiskey this d)])
              | PList xs \<Rightarrow> Inr (h[a := PList (xs @ [this])]))
           else Inl AttributeError)
      | _ \<Rightarrow> Inl AttributeError)"

text \<open>
  \<^verbatim>\<open>
  if len(keys_stack):
      thiskey = keys_stack[-1]
      thisdata = data_stack[-1]
      <link>
  data_stack.append(this)
  keys_stack.append('item')
  \<close>
  shared by the \<^verbatim>\<open>start_\<close> branches of both loops.
\<close>

definition push_container :: "pyval \<Rightarrow> ijsondict \<Rightarrow> error + ijsondict" where
  "push_container this s =
     (case (if keys_stack s = [] then Inr (store s)
            else if data_stack s = [] then Inl IndexError
            else link (last (data_stack s)) (last (keys_stack s)) this (store s)) of
        Inl e \<Rightarrow> Inl e
      | Inr h \<Rightarrow>
          Inr (s\<lparr>store := h, data_stack := data_stack s @ [this],
                 keys_stack := keys_stack s @ [''item'']\<rparr>))"

text \<open>
  \<^verbatim>\<open>
  key = keys_stack[-1]
  data = data_stack[-1]
  <link value>
  \<close>
  the scalar branches of both loops.
\<close>

definition store_scalar :: "pyval \<Rightarrow> ijsondict \<Rightarrow> error + ijsondict" where
  "store_scalar v s =
     (if keys_stack s = [] then Inl IndexError
      else if data_stack s = [] then Inl IndexError
      else (case link (last (data_stack s)) (last (keys_stack s)) v (store s) of
              Inl e \<Rightarrow> Inl e
            | Inr h \<Rightarrow> Inr (s\<lparr>store := h\<rparr>)))"

text \<open>
  \<^verbatim>\<open>
  def _start_parse(self, parser):
      keys_stack = self.keys_stack
      data_stack = self.data_stack
      first = True
      this = self
      prefix = self.prefix[:-1]
      for token, value in parser:
          if token.startswith('start_'):
              break_flag = False
              if keys_stack == prefix:
                  break_flag = True
                  this = self._json_generator(parser)
              else:
                  if first:
                      first = False
                  else:
                      this = self.classmap[token]()
              if len(keys_stack):
                  thiskey = keys_stack[-1]
                  thisdata = data_stack[-1]
                  if isinstance(thisdata, dict):
                      thisdata[thiskey] = this
                  else:
                      thisdata.append(this)
              data_stack.append(this)
              keys_stack.append("item")
              if break_flag:
                  break
          elif token.startswith('end_'):
              keys_stack.pop()
              data_stack.pop()
          elif token == 'map_key':
              keys_stack[-1] = value
          else:
              key = keys_stack[-1]
              data = data_stack[-1]
              if isinstance(data, dict):
                  data[key] = value
              else:
                  data.append(value)
  \<close>
  One iteration: the new state and \<^verbatim>\<open>break_flag\<close>.  While \<^verbatim>\<open>first\<close> holds, \<^verbatim>\<open>this\<close> is still
  \<^verbatim>\<open>self\<close>, the object at address 0.
\<close>

definition start_parse_step :: "event \<Rightarrow> ijsondict \<Rightarrow> error + (ijsondict \<times> bool)" where
  "start_parse_step ev s =
     (if is_start ev then
        (if keys_stack s = butlast (target s) then
           (case push_container PGen s of Inl e \<Rightarrow> Inl e | Inr s' \<Rightarrow> Inr (s', True))
         else if first s then
           (case push_container (PRef 0) (s\<lparr>first := False\<rparr>) of
              Inl e \<Rightarrow> Inl e | Inr s' \<Rightarrow> Inr (s', False))
         else
           (case push_container (PRef (length (store s))) (s\<lparr>store := store s @ [classmap ev]\<rparr>) of
              Inl e \<Rightarrow> Inl e | Inr s' \<Rightarrow> Inr (s', False)))
      else if is_end ev then
        (if keys_stack s = [] then Inl IndexError
         else if data_stack s = [] then Inl IndexError
         else Inr (s\<lparr>keys_stack := butlast (keys_stack s),
                     data_stack := butlast (data_stack s)\<rparr>, False))
      else (case ev of
              map_key k \<Rightarrow>
                (if keys_stack s = [] then Inl IndexError
                 else Inr (s\<lparr>keys_stack := butlast (keys_stack s) @ [k]\<rparr>, False))
            | _ \<Rightarrow>
                (case store_scalar (event_value ev) s of
                   Inl e \<Rightarrow> Inl e | Inr s' \<Rightarrow> Inr (s', False))))"

text \<open>
  The loop of \<^verbatim>\<open>_start_parse\<close>: the state when it ends, the events the parser still holds,
  and whether it ended by \<^verbatim>\<open>break\<close> (the generator object exists and owns the parser).
\<close>

fun start_parse :: "event list \<Rightarrow> ijsondict \<Rightarrow> error + (ijsondict \<times> event list \<times> bool)" where
  "start_parse [] s = Inr (s, [], False)"
| "start_parse (ev # evs) s =
     (case start_parse_step ev s of
        Inl e \<Rightarrow> Inl e
      | Inr (s', brk) \<Rightarrow> if brk then Inr (s', evs, True) else start_parse evs s')"

text \<open>
  \<^verbatim>\<open>
  def _json_generator(self, parser):
      keys_stack = self.keys_stack
      data_stack = self.data_stack
      data_stack[-1] = []
      popped = None
      yield_flag = False
      for token, value in parser:
          if token.startswith('start_'):
              this = self.classmap[token]()
              if len(keys_stack):
                  thiskey = keys_stack[-1]
                  thisdata = data_stack[-1]
                  if isinstance(thisdata, dict):
                      thisdata[thiskey] = this
                  else:
                      thisdata.append(this)
              data_stack.append(this)
              keys_stack.append('item')
          elif token.startswith('end_'):
              keys_stack.pop()
              value = data_stack.pop()
              yield_flag = True
          elif token == 'map_key':
              keys_stack[-1] = value
          else:
              key = keys_stack[-1]
              data = data_stack[-1]
              if isinstance(data, dict):
                  data[key] = value
              else:
                  data.append(value)
              yield_flag = True
          if yield_flag and keys_stack == self.prefix:
              yield value
              yield_flag = False
  \<close>
  The body of a generator function runs from the first \<^verbatim>\<open>next\<close>: the statements before the
  loop are \<^verbatim>\<open>json_generator_start\<close>.
\<close>

definition json_generator_start :: "ijsondict \<Rightarrow> error + ijsondict" where
  "json_generator_start s =
     (if data_stack s = [] then Inl IndexError
      else Inr (s\<lparr>store := store s @ [PList []],
                  data_stack := butlast (data_stack s) @ [PRef (length (store s))],
                  yield_flag := False\<rparr>))"

text \<open>
  The loop body up to the final \<^verbatim>\<open>if\<close>: the new state (with \<^verbatim>\<open>yield_flag\<close> as the branch
  leaves it) and the variable \<^verbatim>\<open>value\<close>.
\<close>

definition generator_branch :: "event \<Rightarrow> ijsondict \<Rightarrow> error + (ijsondict \<times> pyval)" where
  "generator_branch ev s =
     (if is_start ev then
        (case push_container (PRef (length (store s))) (s\<lparr>store := store s @ [classmap ev]\<rparr>) of
           Inl e \<Rightarrow> Inl e | Inr s' \<Rightarrow> Inr (s', event_value ev))
      else if is_end ev then
        (if keys_stack s = [] then Inl IndexError
         else if data_stack s = [] then Inl IndexError
         else Inr (s\<lparr>keys_stack := butlast (keys_stack s),
                     data_stack := butlast (data_stack s),
                     yield_flag := True\<rparr>, last (data_stack s)))
      else (case ev of
              map_key k \<Rightarrow>
                (if keys_stack s = [] then Inl IndexError
                 else Inr (s\<lparr>keys_stack := butlast (keys_stack s) @ [k]\<rparr>, event_value ev))
            | _ \<Rightarrow>
                (case store_scalar (event_value ev) s of
                   Inl e \<Rightarrow> Inl e
                 | Inr s' \<Rightarrow> Inr (s'\<lparr>yield_flag := True\<rparr>, event_value ev))))"

text \<open>One iteration: the new state and the value yielded in it, if any.\<close>

definition json_generator_step :: "event \<Rightarrow> ijsondict \<Rightarrow> error + (ijsondict \<times> pyval option)" where
  "json_generator_step ev s =
     (case generator_branch ev s of
        Inl e \<Rightarrow> Inl e
      | Inr (s', v) \<Rightarrow>
          if yield_flag s' \<and> keys_stack s' = target s'
          then Inr (s'\<lparr>yield_flag := False\<rparr>, Some v)
          else Inr (s', None))"

text \<open>
  The loop of the generator over the events the parser still holds: the values yielded, and
  the state at exhaustion or the exception that ended it.
\<close>

fun json_generator_loop :: "event list \<Rightarrow> ijsondict \<Rightarrow> pyval list \<times> (error + ijsondict)" where
  "json_generator_loop [] s = ([], Inr s)"
| "json_generator_loop (ev # evs) s =
     (case json_generator_step ev s of
        Inl e \<Rightarrow> ([], Inl e)
      | Inr (s', y) \<Rightarrow>
          (case json_generator_loop evs s' of
             (ys, r) \<Rightarrow> ((case y of None \<Rightarrow> ys | Some v \<Rightarrow> v # ys), r)))"

text \<open>The generator run to exhaustion, from its first \<^verbatim>\<open>next\<close>.\<close>

definition json_generator :: "event list \<Rightarrow> ijsondict \<Rightarrow> pyval list \<times> (error + ijsondict)" where
  "json_generator parser s =
     (case json_generator_start s of
        Inl e \<Rightarrow> ([], Inl e)
      | Inr s' \<Rightarrow> json_generator_loop parser s')"

text \<open>
  The states a pass can be in.  \<open>Descending\<close>: inside the loop of \<^verbatim>\<open>_start_parse\<close>.
  \<open>Handed\<close>: the loop has ended by \<^verbatim>\<open>break\<close>, the generator has not been started.
  \<open>Streaming\<close>: inside the generator.
\<close>

datatype phase = Descending | Handed | Streaming

inductive reach :: "string + string list \<Rightarrow> phase \<Rightarrow> ijsondict \<Rightarrow> bool" where
  reach_init: "reach prefix Descending (ijsondict_init prefix)"
| reach_descend:
    "reach prefix Descending s \<Longrightarrow> start_parse_step ev s = Inr (s', False) \<Longrightarrow>
     reach prefix Descending s'"
| reach_break:
    "reach prefix Descending s \<Longrightarrow> start_parse_step ev s = Inr (s', True) \<Longrightarrow>
     reach prefix Handed s'"
| reach_start:
    "reach prefix Handed s \<Longrightarrow> json_generator_start s = Inr s' \<Longrightarrow> reach prefix Streaming s'"
| reach_stream:
    "reach prefix Streaming s \<Longrightarrow> json_generator_step ev s = Inr (s', y) \<Longrightarrow>
     reach prefix Streaming s'"

section \<open>Vocabulary of the proofs about the tree builder\<close>

text \<open>
  The closure on top of \<^verbatim>\<open>self.containers\<close> can be called: its dictionary or list is in the
  store, and \<^verbatim>\<open>self.key\<close> is set when it is a \<^verbatim>\<open>setter\<close>.
\<close>

fun slot_ready :: "slot \<Rightarrow> ObjectBuilder \<Rightarrow> bool" where
  "slot_ready initial_set b = True"
| "slot_ready (setter a) b =
     (a < length (ob_heap b) \<and> (\<exists>d. ob_heap b ! a = PDict d) \<and> ob_key b \<noteq> None)"
| "slot_ready (append_to a) b = (a < length (ob_heap b) \<and> (\<exists>xs. ob_heap b ! a = PList xs))"

definition ready :: "ObjectBuilder \<Rightarrow> bool" where
  "ready b \<longleftrightarrow> containers b \<noteq> [] \<and> slot_ready (last (containers b)) b"

text \<open>
  The values \<open>xs\<close> denote the trees \<open>js\<close> by the objects \<open>ext\<close> alone, wherever \<open>ext\<close> is
  placed from address \<open>n\<close> on: what lies before it and after it does not matter.
\<close>

definition denotes_all :: "nat \<Rightarrow> pyobj list \<Rightarrow> pyval list \<Rightarrow> json list \<Rightarrow> bool" where
  "denotes_all n ext xs js \<longleftrightarrow>
     (\<forall>hp more. length hp = n \<longrightarrow>
        list_all2 (\<lambda>x j. reify (length ext) (hp @ ext @ more) x = Some j) xs js)"

text \<open>The effect on the store and on \<^verbatim>\<open>self.value\<close> of calling a closure that can be called.\<close>

fun assign :: "slot \<Rightarrow> pyval \<Rightarrow> string option \<Rightarrow> heap \<Rightarrow> heap" where
  "assign initial_set v k h = h"
| "assign (setter a) v k h =
     (case h ! a of PDict d \<Rightarrow> h[a := PDict (AList.update (the k) v d)] | PList xs \<Rightarrow> h)"
| "assign (append_to a) v k h =
     (case h ! a of PList xs \<Rightarrow> h[a := PList (xs @ [v])] | PDict d \<Rightarrow> h)"

fun assign_value :: "slot \<Rightarrow> pyval \<Rightarrow> pyval option \<Rightarrow> pyval option" where
  "assign_value initial_set v r = Some v"
| "assign_value c v r = r"

text \<open>
  Feeding the events of \<open>v\<close> calls the top closure once, with a value that denotes
  \<^term>\<open>last_wins v\<close> by the objects added to the store, and leaves the stack of closures as
  it was.
\<close>

definition built :: "json \<Rightarrow> ObjectBuilder \<Rightarrow> bool" where
  "built v b \<longleftrightarrow>
     (\<exists>b' x ext. feed (events_of v) b = Inr b' \<and> containers b' = containers b \<and>
        ob_heap b' = assign (last (containers b)) x (ob_key b) (ob_heap b) @ ext \<and>
        ob_value b' = assign_value (last (containers b)) x (ob_value b) \<and>
        denotes_all (length (ob_heap b)) ext [x] [last_wins v])"

section \<open>Vocabulary of the proofs about the prefix item extractor\<close>

text \<open>
  The prefixed events of a value that sits at the path \<open>q\<close> of a document: what the annotator
  makes of its events when the path stack holds the segments \<open>q\<close>.
\<close>

fun prefixed :: "string list \<Rightarrow> json \<Rightarrow> prefixed_event list" where
  "prefixed q (JArr vs) =
     (join_str q, start_array) # concat (map (prefixed (q @ [''item''])) vs) @ [(join_str q, end_array)]"
| "prefixed q (JObj kvs) =
     (join_str q, start_map) #
     concat (map (\<lambda>kv. (join_str q, map_key (fst kv)) # prefixed (q @ [fst kv]) (snd kv)) kvs) @
     [(join_str q, end_map)]"
| "prefixed q JNull = [(join_str q, null_ev)]"
| "prefixed q (JBool b) = [(join_str q, boolean b)]"
| "prefixed q (JNum i) = [(join_str q, number i)]"
| "prefixed q (JStr s) = [(join_str q, string_ev s)]"

text \<open>
  The values at a prefix, found by walking the document: a value whose path joins to the
  prefix is listed whole, any other array or object is searched element by element (an
  element of an array under the segment \<^verbatim>\<open>item\<close>, a member of an object under its key).
\<close>

fun occurrences :: "string \<Rightarrow> string list \<Rightarrow> json \<Rightarrow> json list" where
  "occurrences prefix q (JArr vs) =
     (if join_str q = prefix then [JArr vs]
      else concat (map (occurrences prefix (q @ [''item''])) vs))"
| "occurrences prefix q (JObj kvs) =
     (if join_str q = prefix then [JObj kvs]
      else concat (map (\<lambda>kv. occurrences prefix (q @ [fst kv]) (snd kv)) kvs))"
| "occurrences prefix q v = (if join_str q = prefix then [v] else [])"

text \<open>The annotator turns the events into the prefixed events \<open>out\<close> and ends with the path \<open>p'\<close>.\<close>

definition parsed :: "path \<Rightarrow> event list \<Rightarrow> prefixed_event list \<Rightarrow> path \<Rightarrow> bool" where
  "parsed p evs out p' \<longleftrightarrow> parse_from p evs = (out, None) \<and> path_after p evs = Some p'"

text \<open>
  Whatever follows them, the prefixed events \<open>pevs\<close> make \<^verbatim>\<open>items\<close> yield the values \<open>js\<close> and
  go on with what follows.
\<close>

definition yields_of :: "string \<Rightarrow> prefixed_event list \<Rightarrow> json list \<Rightarrow> bool" where
  "yields_of prefix pevs js \<longleftrightarrow>
     (\<forall>rest. \<exists>ys. items (pevs @ rest) prefix = (ys @ fst (items rest prefix), snd (items rest prefix)) \<and>
        map as_json ys = map (\<lambda>v. Some (last_wins v)) js)"

section \<open>Vocabulary of the proofs about the hybrid structure\<close>

text \<open>
  How one event moves the two stacks: a start event pushes one entry onto each (the segment
  \<^verbatim>\<open>'item'\<close> onto the keys stack), an end event pops one entry from each, any other event
  leaves their lengths as they are.
\<close>

definition stacks_move :: "event \<Rightarrow> ijsondict \<Rightarrow> ijsondict \<Rightarrow> bool" where
  "stacks_move ev s s' =
     (if is_start ev then
        keys_stack s' = keys_stack s @ [''item''] \<and> butlast (data_stack s') = data_stack s \<and>
        data_stack s' \<noteq> []
      else if is_end ev then
        keys_stack s \<noteq> [] \<and> data_stack s \<noteq> [] \<and>
        keys_stack s' = butlast (keys_stack s) \<and> data_stack s' = butlast (data_stack s)
      else length (keys_stack s') = length (keys_stack s) \<and> data_stack s' = data_stack s)"

text \<open>
  The store after \<^verbatim>\<open>thisdata[thiskey] = this\<close> or \<^verbatim>\<open>thisdata.append(this)\<close> on the container at
  address \<open>a\<close>.
\<close>

definition linked :: "nat \<Rightarrow> string \<Rightarrow> pyval \<Rightarrow> heap \<Rightarrow> heap" where
  "linked a k x h =
     (case h ! a of
        PDict d \<Rightarrow> h[a := PDict (AList.update k x d)]
      | PList xs \<Rightarrow> h[a := PList (xs @ [x])])"

text \<open>The top of the data stack is the container at address \<open>a\<close>, and the keys stack is not empty.\<close>

definition top_at :: "ijsondict \<Rightarrow> nat \<Rightarrow> bool" where
  "top_at s a \<longleftrightarrow>
     keys_stack s \<noteq> [] \<and> data_stack s \<noteq> [] \<and> last (data_stack s) = PRef a \<and>
     a < length (store s)"

text \<open>
  The generator reads the events of \<open>v\<close> with the container at \<open>a\<close> on top: it links one value
  into that container, a value that denotes \<^term>\<open>last_wins v\<close> by the objects added to the
  store, leaves both stacks as they were, and yields that value when, and only when, the keys
  stack is the target path.
\<close>

definition streamed :: "json \<Rightarrow> ijsondict \<Rightarrow> nat \<Rightarrow> bool" where
  "streamed v s a \<longleftrightarrow>
     (\<exists>s' x ext.
        json_generator_loop (events_of v) s =
          ((if keys_stack s = target s then [x] else []), Inr s') \<and>
        keys_stack s' = keys_stack s \<and> data_stack s' = data_stack s \<and> target s' = target s \<and>
        yield_flag s' = (keys_stack s \<noteq> target s) \<and>
        store s' = linked a (last (keys_stack s)) x (store s) @ ext \<and>
        denotes_all (length (store s)) ext [x] [last_wins v])"

text \<open>
  The entry of the container at address \<open>p\<close>, under the key \<open>k\<close> when it is a dictionary, at
  position \<open>i\<close> when it is a list, is the generator object.
\<close>

fun is_dict :: "pyobj \<Rightarrow> bool" where
  "is_dict (PDict d) = True"
| "is_dict (PList xs) = False"

definition gen_at :: "heap \<Rightarrow> nat \<Rightarrow> string \<Rightarrow> nat \<Rightarrow> bool" where
  "gen_at h p k i \<longleftrightarrow>
     p < length h \<and>
     (case h ! p of
        PDict d \<Rightarrow> map_of d k = Some PGen
      | PList xs \<Rightarrow> i < length xs \<and> xs ! i = PGen)"

text \<open>
  The iteration of the generator on \<open>ev\<close> in the state \<open>s\<close> executes \<^verbatim>\<open>thisdata[thiskey] = this\<close>
  (or \<^verbatim>\<open>data[key] = value\<close>) with the dictionary at \<open>p\<close> as \<^verbatim>\<open>thisdata\<close> and \<open>k\<close> as
  \<^verbatim>\<open>thiskey\<close>: the event is a start event or a scalar, the dictionary is on top of the data
  stack and \<open>k\<close> on top of the keys stack.
\<close>

definition overwrites :: "nat \<Rightarrow> string \<Rightarrow> event \<Rightarrow> ijsondict \<Rightarrow> bool" where
  "overwrites p k ev s \<longleftrightarrow>
     (is_start ev \<or> is_scalar ev) \<and> keys_stack s \<noteq> [] \<and> data_stack s \<noteq> [] \<and>
     last (data_stack s) = PRef p \<and> last (keys_stack s) = k \<and>
     p < length (store s) \<and> is_dict (store s ! p)"

text \<open>No iteration of the loop of the generator over \<open>evs\<close>, from the state \<open>s\<close>, does so.\<close>

fun no_overwrite :: "nat \<Rightarrow> string \<Rightarrow> event list \<Rightarrow> ijsondict \<Rightarrow> bool" where
  "no_overwrite p k [] s = True"
| "no_overwrite p k (ev # evs) s =
     (\<not> overwrites p k ev s \<and>
      (case json_generator_step ev s of
         Inl e \<Rightarrow> True
       | Inr (s', y) \<Rightarrow> no_overwrite p k evs s'))"

text \<open>The same of the generator run from its first \<^verbatim>\<open>next\<close>.\<close>

definition never_overwritten :: "nat \<Rightarrow> string \<Rightarrow> event list \<Rightarrow> ijsondict \<Rightarrow> bool" where
  "never_overwritten p k parser s =
     (case json_generator_start s of
        Inl e \<Rightarrow> True
      | Inr s' \<Rightarrow> no_overwrite p k parser s')"

text \<open>
  In the loop of \<^verbatim>\<open>_start_parse\<close> every entry of the data stack is a container of the store
  (the generator object is pushed only by the iteration that ends the loop).
\<close>

definition refs_valid :: "ijsondict \<Rightarrow> bool" where
  "refs_valid s \<longleftrightarrow>
     store s \<noteq> [] \<and> (\<forall>x \<in> set (data_stack s). \<exists>a. x = PRef a \<and> a < length (store s))"

text \<open>
  What the two loops share.  An iteration of the loop of the generator without its final
  \<^verbatim>\<open>if\<close> (the yield and the flag): this is also what an iteration of the loop of
  \<^verbatim>\<open>_start_parse\<close> does when it neither breaks nor meets the first start event.
\<close>

definition build_step :: "event \<Rightarrow> ijsondict \<Rightarrow> ijsondict option" where
  "build_step ev s =
     (case generator_branch ev s of
        Inl e \<Rightarrow> None
      | Inr (s', v) \<Rightarrow> Some (s'\<lparr>yield_flag := yield_flag s\<rparr>))"

text \<open>
  Such iterations over a list of events, none of them raising, and no start event met with
  the keys stack equal to \<open>bt\<close> (where \<^verbatim>\<open>_start_parse\<close> would break, \<open>bt\<close> being the target path
  without its last segment).
\<close>

fun build_run :: "string list \<Rightarrow> event list \<Rightarrow> ijsondict \<Rightarrow> ijsondict option" where
  "build_run bt [] s = Some s"
| "build_run bt (ev # evs) s =
     (if is_start ev \<and> keys_stack s = bt then None
      else (case build_step ev s of
              None \<Rightarrow> None
            | Some s' \<Rightarrow> build_run bt evs s'))"

text \<open>
  They read the events of \<open>v\<close> with the container at \<open>a\<close> on top: one value is linked into
  that container, new objects are added to the store, nothing else changes.
\<close>

definition value_built :: "string list \<Rightarrow> json \<Rightarrow> ijsondict \<Rightarrow> nat \<Rightarrow> bool" where
  "value_built bt v s a \<longleftrightarrow>
     (\<exists>x ext. build_run bt (events_of v) s =
        Some (s\<lparr>store := linked a (last (keys_stack s)) x (store s) @ ext\<rparr>))"

section \<open>Properties of the path annotator\<close>

lemma parse_from_append:
  "parse_from p evs = (out, None) \<Longrightarrow> path_after p evs = Some p' \<Longrightarrow>
   parse_from p (evs @ evs') = (out @ fst (parse_from p' evs'), snd (parse_from p' evs'))"
proof (induction evs arbitrary: p out)
  case Nil
  then show ?case by simp
next
  case (Cons ev evs)
  then show ?case
    by (auto split: sum.splits prod.splits)
qed

lemma snd_parse_from_Cons:
  "snd (parse_from p (ev # evs)) =
     (case parse_step ev p of Inl e \<Rightarrow> Some e | Inr (prefix, p') \<Rightarrow> snd (parse_from p' evs))"
  by (simp split: sum.splits prod.splits)

lemma fst_parse_from_Cons:
  "fst (parse_from p (ev # evs)) =
     (case parse_step ev p of Inl e \<Rightarrow> [] | Inr (prefix, p') \<Rightarrow> (prefix, ev) # fst (parse_from p' evs))"
  by (simp split: sum.splits prod.splits)

lemmas parse_from_Cons = snd_parse_from_Cons fst_parse_from_Cons

lemma parse_from_prefix_ok:
  "snd (parse_from p (xs @ ys)) = None \<Longrightarrow> snd (parse_from p xs) = None"
  by (induction xs arbitrary: p)
     (auto simp: parse_from_Cons simp del: parse_from.simps(2) split: sum.splits)

lemma length_parse_from_ok:
  "snd (parse_from p xs) = None \<Longrightarrow> map snd (fst (parse_from p xs)) = xs"
  by (induction xs arbitrary: p)
     (auto simp: parse_from_Cons simp del: parse_from.simps(2) split: sum.splits)

lemma join_Some [simp]: "join (map Some q) = Inr (join_str q)"
  by (simp add: join_def comp_def)

lemma join_Some_snoc [simp]: "join (map Some q @ [Some k]) = Inr (join_str (q @ [k]))"
  using join_Some[of "q @ [k]"] by simp

lemma parsed_Nil [simp]: "parsed p [] [] p"
  by (simp add: parsed_def)

lemma parsed_append:
  "parsed p xs o1 p1 \<Longrightarrow> parsed p1 ys o2 p2 \<Longrightarrow> parsed p (xs @ ys) (o1 @ o2) p2"
  unfolding parsed_def
  by (induction xs arbitrary: p o1) (auto split: sum.splits prod.splits)

lemma parsed_Cons:
  "parse_step ev p = Inr (c, p1) \<Longrightarrow> parsed p1 ys o2 p2 \<Longrightarrow> parsed p (ev # ys) ((c, ev) # o2) p2"
  unfolding parsed_def by simp

lemma parsed_elements:
  assumes "\<And>v q. v \<in> set vs \<Longrightarrow> parsed (map Some q) (events_of v) (prefixed q v) (map Some q)"
  shows "parsed (map Some q) (concat (map events_of vs)) (concat (map (prefixed q) vs)) (map Some q)"
  using assms
proof (induction vs)
  case Nil
  then show ?case by simp
next
  case (Cons v vs)
  have "parsed (map Some q) (events_of v) (prefixed q v) (map Some q)"
    "parsed (map Some q) (concat (map events_of vs)) (concat (map (prefixed q) vs)) (map Some q)"
    using Cons by simp_all
  then show ?case using parsed_append by fastforce
qed

lemma parsed_members:
  assumes "\<And>kv q. kv \<in> set kvs \<Longrightarrow> parsed (map Some q) (events_of (snd kv)) (prefixed q (snd kv)) (map Some q)"
  shows "\<exists>seg'. parsed (map Some q @ [seg])
           (concat (map (\<lambda>kv. map_key (fst kv) # events_of (snd kv)) kvs))
           (concat (map (\<lambda>kv. (join_str q, map_key (fst kv)) # prefixed (q @ [fst kv]) (snd kv)) kvs))
           (map Some q @ [seg'])"
  using assms
proof (induction kvs arbitrary: seg)
  case Nil
  show ?case by (intro exI[of _ seg]) simp
next
  case (Cons kv kvs)
  have step: "parse_step (map_key (fst kv)) (map Some q @ [seg]) = Inr (join_str q, map Some (q @ [fst kv]))"
    by simp
  have v: "parsed (map Some (q @ [fst kv])) (events_of (snd kv)) (prefixed (q @ [fst kv]) (snd kv))
       (map Some (q @ [fst kv]))"
    using Cons.prems[of kv "q @ [fst kv]"] by simp
  obtain seg' where rest: "parsed (map Some q @ [Some (fst kv)])
           (concat (map (\<lambda>kv. map_key (fst kv) # events_of (snd kv)) kvs))
           (concat (map (\<lambda>kv. (join_str q, map_key (fst kv)) # prefixed (q @ [fst kv]) (snd kv)) kvs))
           (map Some q @ [seg'])"
    using Cons.IH[of "Some (fst kv)"] Cons.prems by auto
  have "parsed (map Some (q @ [fst kv]))
      (events_of (snd kv) @ concat (map (\<lambda>kv. map_key (fst kv) # events_of (snd kv)) kvs))
      (prefixed (q @ [fst kv]) (snd kv) @
       concat (map (\<lambda>kv. (join_str q, map_key (fst kv)) # prefixed (q @ [fst kv]) (snd kv)) kvs))
      (map Some q @ [seg'])"
    using v rest by (intro parsed_append[where ?p1.0 = "map Some (q @ [fst kv])"]) simp_all
  with step have "parsed (map Some q @ [seg])
      (map_key (fst kv) # events_of (snd kv) @ concat (map (\<lambda>kv. map_key (fst kv) # events_of (snd kv)) kvs))
      ((join_str q, map_key (fst kv)) # prefixed (q @ [fst kv]) (snd kv) @
       concat (map (\<lambda>kv. (join_str q, map_key (fst kv)) # prefixed (q @ [fst kv]) (snd kv)) kvs))
      (map Some q @ [seg'])"
    by (rule parsed_Cons)
  then show ?case by auto
qed

lemma parsed_events_of: "parsed (map Some q) (events_of v) (prefixed q v) (map Some q)"
proof (induction v arbitrary: q)
  case (JArr vs)
  have inner: "parsed (map Some (q @ [''item''])) (concat (map events_of vs))
      (concat (map (prefixed (q @ [''item''])) vs)) (map Some (q @ [''item'']))"
    using JArr by (intro parsed_elements) simp
  have fin: "parsed (map Some (q @ [''item''])) [end_array] [(join_str q, end_array)] (map Some q)"
    by (simp add: parsed_def)
  have "parsed (map Some (q @ [''item''])) (concat (map events_of vs) @ [end_array])
      (concat (map (prefixed (q @ [''item''])) vs) @ [(join_str q, end_array)]) (map Some q)"
    using inner fin by (rule parsed_append)
  moreover have "parse_step start_array (map Some q) = Inr (join_str q, map Some (q @ [''item'']))"
    by simp
  ultimately show ?case using parsed_Cons by fastforce
next
  case (JObj kvs)
  have IH: "\<And>kv q. kv \<in> set kvs \<Longrightarrow> parsed (map Some q) (events_of (snd kv)) (prefixed q (snd kv)) (map Some q)"
  proof -
    fix kv and q :: "string list" assume "kv \<in> set kvs"
    moreover have "snd kv \<in> Basic_BNFs.snds kv" by (cases kv) simp
    ultimately show "parsed (map Some q) (events_of (snd kv)) (prefixed q (snd kv)) (map Some q)"
      using JObj.IH by blast
  qed
  obtain seg' where inner: "parsed (map Some q @ [None])
           (concat (map (\<lambda>kv. map_key (fst kv) # events_of (snd kv)) kvs))
           (concat (map (\<lambda>kv. (join_str q, map_key (fst kv)) # prefixed (q @ [fst kv]) (snd kv)) kvs))
           (map Some q @ [seg'])"
    using parsed_members[OF IH, of kvs q None] by auto
  have fin: "parsed (map Some q @ [seg']) [end_map] [(join_str q, end_map)] (map Some q)"
    by (simp add: parsed_def)
  have "parsed (map Some q @ [None])
      (concat (map (\<lambda>kv. map_key (fst kv) # events_of (snd kv)) kvs) @ [end_map])
      (concat (map (\<lambda>kv. (join_str q, map_key (fst kv)) # prefixed (q @ [fst kv]) (snd kv)) kvs) @
       [(join_str q, end_map)]) (map Some q)"
    using inner fin by (rule parsed_append)
  moreover have "parse_step start_map (map Some q) = Inr (join_str q, map Some q @ [None])"
    by simp
  ultimately show ?case using parsed_Cons by fastforce
qed (simp_all add: parsed_def)

text \<open>
  On the events of any value the annotator ends normally, and its output is
  \<^const>\<open>prefixed\<close> of the value at the empty path.
\<close>

lemma parse_events_of: "parse (events_of v) = (prefixed [] v, None)"
  using parsed_events_of[of "[]" v] by (simp add: parsed_def parse_def)

text \<open>
  C3.  On the events of \<^verbatim>\<open>{"a": [1, 2]}\<close> the annotator yields seven prefixed events with the
  prefixes \<^verbatim>\<open>""\<close>, \<^verbatim>\<open>""\<close>, \<^verbatim>\<open>"a"\<close>, \<^verbatim>\<open>"a.item"\<close>, \<^verbatim>\<open>"a.item"\<close>, \<^verbatim>\<open>"a"\<close>, \<^verbatim>\<open>""\<close>, each with its input
  event, and ends normally.  Whenever an iteration on a \<^verbatim>\<open>map_key\<close> event emits, the prefix is
  the join of the path without its last segment, and the path continues with that last
  segment replaced by the key.
\<close>

theorem parse_example_and_map_key:
  "parse [start_map, map_key ''a'', start_array, number 1, number 2, end_array, end_map] =
     ([('''', start_map), ('''', map_key ''a''), (''a'', start_array),
       (''a.item'', number 1), (''a.item'', number 2), (''a'', end_array), ('''', end_map)], None)
   \<and> (\<forall>k p prefix p'. parse_step (map_key k) p = Inr (prefix, p') \<longrightarrow>
         p \<noteq> [] \<and> join (butlast p) = Inr prefix \<and> p' = butlast p @ [Some k])"
  by (auto simp: parse_def join_def split: sum.splits if_splits)

theorem parse_example_and_map_key_witness:
  "parse_step (map_key ''b'') [Some ''a'', None] = Inr (''a'', [Some ''a'', Some ''b''])
   \<and> join (butlast [Some ''a'', None]) = Inr ''a''"
  using parse_example_and_map_key by (simp add: join_def)

text \<open>
  C8.  When an \<^verbatim>\<open>end_map\<close> or \<^verbatim>\<open>end_array\<close> event arrives while the path stack is empty,
  \<^verbatim>\<open>path.pop()\<close> raises at once: the consumer has seen the prefixed events of the earlier
  input, then the exception, and no prefixed event for the offending one.
\<close>

theorem parse_end_on_empty_path_faults:
  "parse evs = (out, None) \<Longrightarrow> path_after [] evs = Some [] \<Longrightarrow> is_end ev \<Longrightarrow>
   parse (evs @ ev # evs') = (out, Some IndexError)"
  unfolding parse_def by (cases ev) (simp_all add: parse_from_append)

theorem parse_end_on_empty_path_faults_witness:
  "parse [start_map, end_map] = ([('''', start_map), ('''', end_map)], None)
   \<and> path_after [] [start_map, end_map] = Some []
   \<and> is_end end_array
   \<and> parse ([start_map, end_map] @ end_array # [number 1]) =
       ([('''', start_map), ('''', end_map)], Some IndexError)"
  using parse_end_on_empty_path_faults
    [of "[start_map, end_map]" "[('''', start_map), ('''', end_map)]" end_array "[number 1]"]
  by (simp add: parse_def join_def)

section \<open>Properties of the tree builder\<close>

subsection \<open>Reading the store\<close>

lemma those_map_Some:
  "list_all2 (\<lambda>x y. f x = Some y) xs ys \<Longrightarrow> those (map f xs) = Some ys"
  by (induction rule: list_all2_induct) auto

lemma those_map_SomeD:
  "those (map f xs) = Some ys \<Longrightarrow> list_all2 (\<lambda>x y. f x = Some y) xs ys"
  by (induction xs arbitrary: ys) (auto split: option.splits)

lemma reify_mono: "reify n h x = Some j \<Longrightarrow> reify (n + m) h x = Some j"
proof (induction n arbitrary: x j)
  case 0
  then show ?case by (cases x) auto
next
  case (Suc n)
  show ?case
  proof (cases x)
    case (PRef a)
    with Suc.prems have a: "a < length h" by (auto split: if_splits)
    show ?thesis
    proof (cases "h ! a")
      case (PList xs)
      with Suc.prems PRef a obtain js where js: "those (map (reify n h) xs) = Some js" "j = JArr js"
        by auto
      from js(1) have "list_all2 (\<lambda>x y. reify n h x = Some y) xs js" by (rule those_map_SomeD)
      then have "list_all2 (\<lambda>x y. reify (n + m) h x = Some y) xs js"
        by (rule list_all2_mono) (rule Suc.IH)
      then have "those (map (reify (n + m) h) xs) = Some js" by (rule those_map_Some)
      with PRef a PList js show ?thesis by simp
    next
      case (PDict d)
      let ?f = "\<lambda>n kv. map_option (Pair (fst kv)) (reify n h (snd kv))"
      from Suc.prems PRef a PDict obtain r where r: "those (map (?f n) d) = Some r" "j = JObj r"
        by auto
      from r(1) have "list_all2 (\<lambda>x y. ?f n x = Some y) d r" by (rule those_map_SomeD)
      then have "list_all2 (\<lambda>x y. ?f (n + m) x = Some y) d r"
        by (rule list_all2_mono) (auto dest: Suc.IH)
      then have "those (map (?f (n + m)) d) = Some r" by (rule those_map_Some)
      with PRef a PDict r show ?thesis by simp
    qed
  qed (use Suc.prems in auto)
qed

lemma denotes_all_Nil: "denotes_all n [] [] []"
  by (simp add: denotes_all_def)

lemma denotes_all_Cons:
  assumes "denotes_all n e1 [x] [j]" and "denotes_all (n + length e1) e2 xs js"
  shows "denotes_all n (e1 @ e2) (x # xs) (j # js)"
  unfolding denotes_all_def
proof (intro allI impI)
  fix hp more :: "pyobj list"
  assume len: "length hp = n"
  let ?H = "hp @ (e1 @ e2) @ more"
  from assms(1) len have "reify (length e1) (hp @ e1 @ (e2 @ more)) x = Some j"
    unfolding denotes_all_def by auto
  then have "reify (length e1 + length e2) ?H x = Some j"
    using reify_mono by simp
  moreover
  from assms(2) len have "list_all2 (\<lambda>x j. reify (length e2) ((hp @ e1) @ e2 @ more) x = Some j) xs js"
    unfolding denotes_all_def by (metis length_append)
  then have "list_all2 (\<lambda>x j. reify (length e2 + length e1) ?H x = Some j) xs js"
    by (rule list_all2_mono) (use reify_mono in simp)
  ultimately show "list_all2 (\<lambda>x j. reify (length (e1 @ e2)) ?H x = Some j) (x # xs) (j # js)"
    by (simp add: add.commute)
qed

lemma denotes_scalar:
  "is_scalar ev \<Longrightarrow> reify m h (event_value ev) = Some j \<Longrightarrow> denotes_all n [] [event_value ev] [j]"
  by (cases ev) (auto simp: denotes_all_def)

lemma denotes_arr:
  assumes "denotes_all (Suc n) ext xs js"
  shows "denotes_all n (PList xs # ext) [PRef n] [JArr js]"
  unfolding denotes_all_def
proof (intro allI impI)
  fix hp more :: "pyobj list"
  assume len: "length hp = n"
  let ?H = "hp @ (PList xs # ext) @ more"
  have H: "?H = (hp @ [PList xs]) @ ext @ more" by simp
  from assms len have "list_all2 (\<lambda>x j. reify (length ext) ?H x = Some j) xs js"
    unfolding denotes_all_def H by (simp del: append_assoc)
  then have "those (map (reify (length ext) ?H) xs) = Some js" by (rule those_map_Some)
  with len show "list_all2 (\<lambda>x j. reify (length (PList xs # ext)) ?H x = Some j) [PRef n] [JArr js]"
    by (simp add: nth_append)
qed

lemma foldl_update_rel:
  assumes "list_all2 (\<lambda>kx kv. fst kx = fst kv \<and> R (snd kx) (f (snd kv))) kxs kvs"
    and "list_all2 (\<lambda>kx kj. fst kx = fst kj \<and> R (snd kx) (snd kj)) d dj"
  shows "list_all2 (\<lambda>kx kj. fst kx = fst kj \<and> R (snd kx) (snd kj))
           (foldl (\<lambda>d kx. AList.update (fst kx) (snd kx) d) d kxs)
           (foldl (\<lambda>d kv. AList.update (fst kv) (f (snd kv)) d) dj kvs)"
  using assms
proof (induction arbitrary: d dj rule: list_all2_induct)
  case Nil
  then show ?case by simp
next
  case (Cons kx kxs kv kvs)
  have "list_all2 (\<lambda>kx kj. fst kx = fst kj \<and> R (snd kx) (snd kj))
          (AList.update (fst kx) (snd kx) d) (AList.update (fst kv) (f (snd kv)) dj)"
    using Cons.prems Cons.hyps(1)
    by (induction rule: list_all2_induct) auto
  then show ?case using Cons.IH by simp
qed

lemma list_all2_fst_snd:
  "map fst kxs = map fst kvs \<Longrightarrow> list_all2 R (map snd kxs) (map g kvs) \<Longrightarrow>
   list_all2 (\<lambda>kx kv. fst kx = fst kv \<and> R (snd kx) (g kv)) kxs kvs"
proof (induction kxs arbitrary: kvs)
  case Nil
  then show ?case by simp
next
  case (Cons kx kxs)
  then show ?case by (cases kvs) auto
qed

lemma denotes_obj:
  assumes "denotes_all (Suc n) ext (map snd kxs) (map (\<lambda>kv. f (snd kv)) kvs)"
    and "map fst kxs = map fst kvs"
  shows "denotes_all n (PDict (foldl (\<lambda>d kx. AList.update (fst kx) (snd kx) d) [] kxs) # ext) [PRef n]
           [JObj (foldl (\<lambda>d kv. AList.update (fst kv) (f (snd kv)) d) [] kvs)]"
  unfolding denotes_all_def
proof (intro allI impI)
  fix hp more :: "pyobj list"
  assume len: "length hp = n"
  define d where "d = foldl (\<lambda>d kx. AList.update (fst kx) (snd kx) d) [] kxs"
  define dj where "dj = foldl (\<lambda>d kv. AList.update (fst kv) (f (snd kv)) d) [] kvs"
  define H where "H = hp @ (PDict d # ext) @ more"
  define R where "R = (\<lambda>x j. reify (length ext) H x = Some j)"
  have H: "H = (hp @ [PDict d]) @ ext @ more" by (simp add: H_def)
  have "length (hp @ [PDict d]) = Suc n" using len by simp
  with assms(1) have "list_all2 R (map snd kxs) (map (\<lambda>kv. f (snd kv)) kvs)"
    unfolding denotes_all_def H R_def by blast
  with assms(2) have "list_all2 (\<lambda>kx kv. fst kx = fst kv \<and> R (snd kx) (f (snd kv))) kxs kvs"
    by (rule list_all2_fst_snd)
  then have "list_all2 (\<lambda>kx kj. fst kx = fst kj \<and> R (snd kx) (snd kj)) d dj"
    unfolding d_def dj_def by (rule foldl_update_rel) simp
  then have "list_all2 (\<lambda>kx kj. map_option (Pair (fst kx)) (reify (length ext) H (snd kx)) = Some kj) d dj"
    by (rule list_all2_mono) (auto simp: R_def)
  then have "those (map (\<lambda>kx. map_option (Pair (fst kx)) (reify (length ext) H (snd kx))) d) = Some dj"
    by (rule those_map_Some)
  with len have "reify (Suc (length ext)) H (PRef n) = Some (JObj dj)"
    by (simp add: H_def nth_append)
  then show "list_all2 (\<lambda>x j. reify (length (PDict (foldl (\<lambda>d kx. AList.update (fst kx) (snd kx) d) [] kxs) # ext))
       (hp @ (PDict (foldl (\<lambda>d kx. AList.update (fst kx) (snd kx) d) [] kxs) # ext) @ more) x = Some j) [PRef n]
       [JObj (foldl (\<lambda>d kv. AList.update (fst kv) (f (snd kv)) d) [] kvs)]"
    by (simp add: H_def d_def dj_def)
qed

subsection \<open>Feeding the events of a value\<close>

lemma feed_append:
  "feed (xs @ ys) b = (case feed xs b of Inl e \<Rightarrow> Inl e | Inr b' \<Rightarrow> feed ys b')"
  by (induction xs arbitrary: b) (auto split: sum.splits)

lemma call_top_ready:
  "ready b \<Longrightarrow>
   call_top x b = Inr (b\<lparr>ob_heap := assign (last (containers b)) x (ob_key b) (ob_heap b),
                         ob_value := assign_value (last (containers b)) x (ob_value b)\<rparr>)"
  by (cases "last (containers b)") (auto simp: ready_def call_top_def)

lemma length_assign [simp]: "length (assign c x k h) = length h"
  by (cases c) (auto split: pyobj.splits)

lemma assign_append:
  "slot_ready c b \<Longrightarrow> assign c x k (ob_heap b @ e) = assign c x k (ob_heap b) @ e"
  by (cases c) (auto simp: nth_append list_update_append1 split: pyobj.splits)

lemma ready_append:
  "ready b \<Longrightarrow> ready (b\<lparr>ob_heap := ob_heap b @ e\<rparr>)"
  by (cases "last (containers b)") (auto simp: ready_def nth_append)

lemma built_scalar:
  assumes "ready b" "is_scalar ev"
  shows "\<exists>b'. feed [ev] b = Inr b' \<and> containers b' = containers b \<and>
        ob_heap b' = assign (last (containers b)) (event_value ev) (ob_key b) (ob_heap b) @ [] \<and>
        ob_value b' = assign_value (last (containers b)) (event_value ev) (ob_value b)"
  using assms by (cases ev) (simp_all add: call_top_ready)

lemma builtD:
  assumes "built v b"
  obtains b' x ext where "feed (events_of v) b = Inr b'" "containers b' = containers b"
    "ob_heap b' = assign (last (containers b)) x (ob_key b) (ob_heap b) @ ext"
    "ob_value b' = assign_value (last (containers b)) x (ob_value b)"
    "denotes_all (length (ob_heap b)) ext [x] [last_wins v]"
  using assms unfolding built_def by blast

lemma feed_elements:
  assumes IH: "\<And>v b. v \<in> set vs \<Longrightarrow> ready b \<Longrightarrow> built v b"
    and "containers b \<noteq> []" "last (containers b) = append_to a"
    and "a < length (ob_heap b)" "ob_heap b ! a = PList xs0"
  shows "\<exists>b' xs ext. feed (concat (map events_of vs)) b = Inr b' \<and> containers b' = containers b \<and>
           ob_heap b' = (ob_heap b)[a := PList (xs0 @ xs)] @ ext \<and> ob_value b' = ob_value b \<and>
           denotes_all (length (ob_heap b)) ext xs (map last_wins vs)"
  using assms
proof (induction vs arbitrary: b xs0)
  case Nil
  have "(ob_heap b)[a := PList xs0] = ob_heap b"
    using Nil.prems by (metis list_update_id)
  then show ?case by (auto simp: denotes_all_Nil intro!: exI[of _ "[]"])
next
  case (Cons v vs)
  have rb: "ready b" using Cons.prems by (simp add: ready_def)
  have "built v b" using Cons.prems(1) rb by simp
  then obtain b1 x e1 where b1: "feed (events_of v) b = Inr b1" "containers b1 = containers b"
    "ob_heap b1 = (ob_heap b)[a := PList (xs0 @ [x])] @ e1"
    "ob_value b1 = ob_value b"
    "denotes_all (length (ob_heap b)) e1 [x] [last_wins v]"
    using Cons.prems by (auto elim!: builtD)
  have at: "ob_heap b1 ! a = PList (xs0 @ [x])" "a < length (ob_heap b1)"
    using b1(3) Cons.prems by (simp_all add: nth_append)
  have "\<exists>b' xs ext. feed (concat (map events_of vs)) b1 = Inr b' \<and> containers b' = containers b1 \<and>
           ob_heap b' = (ob_heap b1)[a := PList ((xs0 @ [x]) @ xs)] @ ext \<and> ob_value b' = ob_value b1 \<and>
           denotes_all (length (ob_heap b1)) ext xs (map last_wins vs)"
    using Cons.prems(1) b1(2) Cons.prems(2,3) at by (intro Cons.IH) simp_all
  then obtain b' xs e2 where b': "feed (concat (map events_of vs)) b1 = Inr b'"
    "containers b' = containers b1"
    "ob_heap b' = (ob_heap b1)[a := PList ((xs0 @ [x]) @ xs)] @ e2" "ob_value b' = ob_value b1"
    "denotes_all (length (ob_heap b1)) e2 xs (map last_wins vs)"
    by blast
  have heap: "ob_heap b' = (ob_heap b)[a := PList (xs0 @ x # xs)] @ e1 @ e2"
    using b'(3) b1(3) Cons.prems(4) by (simp add: list_update_append1)
  have "length (ob_heap b1) = length (ob_heap b) + length e1" using b1(3) by simp
  with b'(5) b1(5) have "denotes_all (length (ob_heap b)) (e1 @ e2) (x # xs) (last_wins v # map last_wins vs)"
    by (simp add: denotes_all_Cons)
  with b1 b' heap show ?case
    by (auto simp: feed_append intro!: exI[of _ "x # xs"] exI[of _ "e1 @ e2"])
qed

lemma feed_members:
  assumes IH: "\<And>kv b. kv \<in> set kvs \<Longrightarrow> ready b \<Longrightarrow> built (snd kv) b"
    and "containers b \<noteq> []" "last (containers b) = setter a"
    and "a < length (ob_heap b)" "ob_heap b ! a = PDict d0"
  shows "\<exists>b' kxs ext.
           feed (concat (map (\<lambda>kv. map_key (fst kv) # events_of (snd kv)) kvs)) b = Inr b' \<and>
           containers b' = containers b \<and>
           ob_heap b' = (ob_heap b)[a := PDict (foldl (\<lambda>d kx. AList.update (fst kx) (snd kx) d) d0 kxs)] @ ext \<and>
           ob_value b' = ob_value b \<and> map fst kxs = map fst kvs \<and>
           denotes_all (length (ob_heap b)) ext (map snd kxs) (map (\<lambda>kv. last_wins (snd kv)) kvs)"
  using assms
proof (induction kvs arbitrary: b d0)
  case Nil
  have "(ob_heap b)[a := PDict d0] = ob_heap b"
    using Nil.prems by (metis list_update_id)
  then show ?case by (auto simp: denotes_all_Nil intro!: exI[of _ "[]"])
next
  case (Cons kv kvs)
  define bk where "bk = b\<lparr>ob_key := Some (fst kv)\<rparr>"
  have rb: "ready bk" using Cons.prems by (simp add: ready_def bk_def)
  have "built (snd kv) bk" using Cons.prems(1) rb by simp
  then obtain b1 x e1 where b1: "feed (events_of (snd kv)) bk = Inr b1" "containers b1 = containers b"
    "ob_heap b1 = (ob_heap b)[a := PDict (AList.update (fst kv) x d0)] @ e1"
    "ob_value b1 = ob_value b"
    "denotes_all (length (ob_heap b)) e1 [x] [last_wins (snd kv)]"
    using Cons.prems by (auto simp: bk_def elim!: builtD)
  have at: "ob_heap b1 ! a = PDict (AList.update (fst kv) x d0)" "a < length (ob_heap b1)"
    using b1(3) Cons.prems by (simp_all add: nth_append)
  have "\<exists>b' kxs ext.
           feed (concat (map (\<lambda>kv. map_key (fst kv) # events_of (snd kv)) kvs)) b1 = Inr b' \<and>
           containers b' = containers b1 \<and>
           ob_heap b' = (ob_heap b1)[a := PDict (foldl (\<lambda>d kx. AList.update (fst kx) (snd kx) d) (AList.update (fst kv) x d0) kxs)] @ ext \<and>
           ob_value b' = ob_value b1 \<and> map fst kxs = map fst kvs \<and>
           denotes_all (length (ob_heap b1)) ext (map snd kxs) (map (\<lambda>kv. last_wins (snd kv)) kvs)"
    using Cons.prems(1) b1(2) Cons.prems(2,3) at by (intro Cons.IH) simp_all
  then obtain b' kxs e2 where b':
    "feed (concat (map (\<lambda>kv. map_key (fst kv) # events_of (snd kv)) kvs)) b1 = Inr b'"
    "containers b' = containers b1"
    "ob_heap b' = (ob_heap b1)[a := PDict (foldl (\<lambda>d kx. AList.update (fst kx) (snd kx) d) (AList.update (fst kv) x d0) kxs)] @ e2"
    "ob_value b' = ob_value b1" "map fst kxs = map fst kvs"
    "denotes_all (length (ob_heap b1)) e2 (map snd kxs) (map (\<lambda>kv. last_wins (snd kv)) kvs)"
    by blast
  have heap: "ob_heap b' = (ob_heap b)[a := PDict (foldl (\<lambda>d kx. AList.update (fst kx) (snd kx) d) d0 ((fst kv, x) # kxs))] @ e1 @ e2"
    using b'(3) b1(3) Cons.prems(4) by (simp add: list_update_append1)
  have "length (ob_heap b1) = length (ob_heap b) + length e1" using b1(3) by simp
  with b'(6) b1(5) have "denotes_all (length (ob_heap b)) (e1 @ e2) (map snd ((fst kv, x) # kxs))
      (map (\<lambda>kv. last_wins (snd kv)) (kv # kvs))"
    by (simp add: denotes_all_Cons)
  moreover have "feed (concat (map (\<lambda>kv. map_key (fst kv) # events_of (snd kv)) (kv # kvs))) b = Inr b'"
    using b1(1) b'(1) by (simp add: feed_append bk_def)
  ultimately show ?case using b1 b' heap
    by (intro exI[of _ b'] exI[of _ "(fst kv, x) # kxs"] exI[of _ "e1 @ e2"]) simp
qed

lemma built_scalar_event:
  assumes "ready b" "is_scalar ev" "events_of v = [ev]" "last_wins v = j" "reify 0 [] (event_value ev) = Some j"
  shows "built v b"
  unfolding built_def
  using assms built_scalar[OF assms(1,2)] denotes_scalar[OF assms(2,5)]
  by (auto intro!: exI[of _ "event_value ev"] exI[of _ "[]"])

lemma built_all: "ready b \<Longrightarrow> built v b"
proof (induction v arbitrary: b)
  case JNull
  then show ?case by (rule built_scalar_event[where ev = null_ev]) simp_all
next
  case (JBool x)
  then show ?case by (rule built_scalar_event[where ev = "boolean x"]) simp_all
next
  case (JNum x)
  then show ?case by (rule built_scalar_event[where ev = "number x"]) simp_all
next
  case (JStr x)
  then show ?case by (rule built_scalar_event[where ev = "string_ev x"]) simp_all
next
  case (JArr vs)
  define a where "a = length (ob_heap b)"
  define c where "c = last (containers b)"
  define b0 where "b0 = b\<lparr>ob_heap := ob_heap b @ [PList []]\<rparr>"
  define b1 where "b1 = b0\<lparr>ob_heap := assign c (PRef a) (ob_key b) (ob_heap b) @ [PList []],
       ob_value := assign_value c (PRef a) (ob_value b), containers := containers b @ [append_to a]\<rparr>"
  have rb: "slot_ready c b" "containers b \<noteq> []" using JArr.prems by (simp_all add: ready_def c_def)
  have "ready b0" unfolding b0_def using JArr.prems by (rule ready_append)
  then have start: "ObjectBuilder_event start_array b = Inr b1"
    using rb by (simp add: call_top_ready b0_def[symmetric] a_def[symmetric] Let_def)
       (simp add: b0_def b1_def c_def assign_append)
  have "\<exists>b' xs ext. feed (concat (map events_of vs)) b1 = Inr b' \<and> containers b' = containers b1 \<and>
           ob_heap b' = (ob_heap b1)[a := PList ([] @ xs)] @ ext \<and> ob_value b' = ob_value b1 \<and>
           denotes_all (length (ob_heap b1)) ext xs (map last_wins vs)"
    by (rule feed_elements) (use JArr.IH in \<open>simp_all add: b1_def b0_def a_def nth_append\<close>)
  then obtain b2 xs ext where b2: "feed (concat (map events_of vs)) b1 = Inr b2"
    "containers b2 = containers b1" "ob_heap b2 = (ob_heap b1)[a := PList xs] @ ext"
    "ob_value b2 = ob_value b1" "denotes_all (length (ob_heap b1)) ext xs (map last_wins vs)"
    by auto
  define b3 where "b3 = b2\<lparr>containers := butlast (containers b2)\<rparr>"
  have fin: "feed (events_of (JArr vs)) b = Inr b3"
    using start b2(1,2) by (simp add: feed_append b3_def b1_def)
  have h3: "ob_heap b3 = assign c (PRef a) (ob_key b) (ob_heap b) @ (PList xs # ext)"
    using b2(3) by (simp add: b3_def b1_def b0_def a_def list_update_append)
  have "length (ob_heap b1) = Suc a" by (simp add: b1_def b0_def a_def)
  with b2(5) have "denotes_all a (PList xs # ext) [PRef a] [JArr (map last_wins vs)]"
    by (simp add: denotes_arr)
  then show ?case unfolding built_def
    using fin h3 b2(2,4)
    by (intro exI[of _ b3] exI[of _ "PRef a"] exI[of _ "PList xs # ext"])
       (simp add: b3_def b1_def b0_def c_def a_def)
next
  case (JObj kvs)
  define a where "a = length (ob_heap b)"
  define c where "c = last (containers b)"
  define b0 where "b0 = b\<lparr>ob_heap := ob_heap b @ [PDict []]\<rparr>"
  define b1 where "b1 = b0\<lparr>ob_heap := assign c (PRef a) (ob_key b) (ob_heap b) @ [PDict []],
       ob_value := assign_value c (PRef a) (ob_value b), containers := containers b @ [setter a]\<rparr>"
  have rb: "slot_ready c b" "containers b \<noteq> []" using JObj.prems by (simp_all add: ready_def c_def)
  have "ready b0" unfolding b0_def using JObj.prems by (rule ready_append)
  then have start: "ObjectBuilder_event start_map b = Inr b1"
    using rb by (simp add: call_top_ready b0_def[symmetric] a_def[symmetric] Let_def)
       (simp add: b0_def b1_def c_def assign_append)
  have IH: "\<And>kv b. kv \<in> set kvs \<Longrightarrow> ready b \<Longrightarrow> built (snd kv) b"
  proof -
    fix kv b assume "kv \<in> set kvs" "ready b"
    moreover have "snd kv \<in> Basic_BNFs.snds kv" by (cases kv) simp
    ultimately show "built (snd kv) b" using JObj.IH by blast
  qed
  have "\<exists>b' kxs ext.
           feed (concat (map (\<lambda>kv. map_key (fst kv) # events_of (snd kv)) kvs)) b1 = Inr b' \<and>
           containers b' = containers b1 \<and>
           ob_heap b' = (ob_heap b1)[a := PDict (foldl (\<lambda>d kx. AList.update (fst kx) (snd kx) d) [] kxs)] @ ext \<and>
           ob_value b' = ob_value b1 \<and> map fst kxs = map fst kvs \<and>
           denotes_all (length (ob_heap b1)) ext (map snd kxs) (map (\<lambda>kv. last_wins (snd kv)) kvs)"
    by (rule feed_members) (use IH in \<open>simp_all add: b1_def b0_def a_def nth_append\<close>)
  then obtain b2 kxs ext where b2:
    "feed (concat (map (\<lambda>kv. map_key (fst kv) # events_of (snd kv)) kvs)) b1 = Inr b2"
    "containers b2 = containers b1"
    "ob_heap b2 = (ob_heap b1)[a := PDict (foldl (\<lambda>d kx. AList.update (fst kx) (snd kx) d) [] kxs)] @ ext"
    "ob_value b2 = ob_value b1" "map fst kxs = map fst kvs"
    "denotes_all (length (ob_heap b1)) ext (map snd kxs) (map (\<lambda>kv. last_wins (snd kv)) kvs)"
    by auto
  define d where "d = foldl (\<lambda>d kx. AList.update (fst kx) (snd kx) d) [] kxs"
  define b3 where "b3 = b2\<lparr>containers := butlast (containers b2)\<rparr>"
  have fin: "feed (events_of (JObj kvs)) b = Inr b3"
    using start b2(1,2) by (simp add: feed_append b3_def b1_def)
  have h3: "ob_heap b3 = assign c (PRef a) (ob_key b) (ob_heap b) @ (PDict d # ext)"
    using b2(3) by (simp add: b3_def b1_def b0_def a_def d_def list_update_append)
  have "length (ob_heap b1) = Suc a" by (simp add: b1_def b0_def a_def)
  with b2(5,6) have "denotes_all a (PDict d # ext) [PRef a] [last_wins (JObj kvs)]"
    unfolding d_def by (simp add: denotes_obj)
  then show ?case unfolding built_def
    using fin h3 b2(2,4)
    by (intro exI[of _ b3] exI[of _ "PRef a"] exI[of _ "PDict d # ext"])
       (simp add: b3_def b1_def b0_def c_def a_def)
qed

lemma ready_init: "ready ObjectBuilder_init"
  by (simp add: ready_def ObjectBuilder_init_def)

lemma feed_events_of_init:
  "\<exists>b. feed (events_of v) ObjectBuilder_init = Inr b \<and> builder_value b = Some (last_wins v) \<and>
       containers b = [initial_set]"
proof -
  have "built v ObjectBuilder_init" using ready_init by (rule built_all)
  then obtain b x ext where b: "feed (events_of v) ObjectBuilder_init = Inr b"
    "containers b = containers ObjectBuilder_init"
    "ob_heap b = assign (last (containers ObjectBuilder_init)) x (ob_key ObjectBuilder_init)
       (ob_heap ObjectBuilder_init) @ ext"
    "ob_value b = assign_value (last (containers ObjectBuilder_init)) x (ob_value ObjectBuilder_init)"
    "denotes_all (length (ob_heap ObjectBuilder_init)) ext [x] [last_wins v]"
    by (rule builtD)
  have "length ([]::pyobj list) = length (ob_heap ObjectBuilder_init)"
    by (simp add: ObjectBuilder_init_def)
  with b(5) have "list_all2 (\<lambda>x j. reify (length ext) ([] @ ext @ []) x = Some j) [x] [last_wins v]"
    unfolding denotes_all_def by blast
  then have "reify (length ext) ext x = Some (last_wins v)" by simp
  moreover have "ob_heap b = ext" "ob_value b = Some x" "containers b = [initial_set]"
    using b(2,3,4) by (simp_all add: ObjectBuilder_init_def)
  ultimately show ?thesis using b(1) by (simp add: builder_value_def)
qed

lemma update_fresh: "k \<notin> fst ` set d \<Longrightarrow> AList.update k v d = d @ [(k, v)]"
  by (induction d) auto

lemma foldl_update_distinct:
  "distinct (map fst d @ map fst kvs) \<Longrightarrow>
   foldl (\<lambda>d kv. AList.update (fst kv) (f (snd kv)) d) d kvs = d @ map (\<lambda>kv. (fst kv, f (snd kv))) kvs"
proof (induction kvs arbitrary: d)
  case Nil
  then show ?case by simp
next
  case (Cons kv kvs)
  from Cons.prems have fresh: "fst kv \<notin> fst ` set d" by auto
  from Cons.prems have "distinct (map fst (d @ [(fst kv, f (snd kv))]) @ map fst kvs)" by auto
  then show ?case using Cons.IH[of "d @ [(fst kv, f (snd kv))]"] fresh
    by (simp add: update_fresh)
qed

lemma last_wins_distinct: "distinct_keys v \<Longrightarrow> last_wins v = v"
proof (induction v)
  case (JArr vs)
  then show ?case by (auto simp: list_all_iff intro: map_idI)
next
  case (JObj kvs)
  have "map (\<lambda>kv. (fst kv, last_wins (snd kv))) kvs = kvs"
  proof (rule map_idI)
    fix kv assume "kv \<in> set kvs"
    moreover have "snd kv \<in> Basic_BNFs.snds kv" by (cases kv) simp
    ultimately have "last_wins (snd kv) = snd kv" using JObj by (auto simp: list_all_iff)
    then show "(fst kv, last_wins (snd kv)) = kv" by simp
  qed
  with JObj.prems show ?case
    using foldl_update_distinct[of "[]" kvs last_wins] by simp
qed simp_all

lemma distinct_foldl_update:
  "distinct (map fst d) \<Longrightarrow> distinct (map fst (foldl (\<lambda>d kv. AList.update (fst kv) (f (snd kv)) d) d kvs))"
  by (induction kvs arbitrary: d) (simp_all add: distinct_update)

lemma map_of_foldl_update:
  "map_of (foldl (\<lambda>d kv. AList.update (fst kv) (f (snd kv)) d) d kvs) k =
     (case map_of (rev kvs) k of None \<Rightarrow> map_of d k | Some v \<Rightarrow> Some (f v))"
proof (induction kvs arbitrary: d)
  case Nil
  then show ?case by simp
next
  case (Cons kv kvs)
  show ?case
    by (cases kv) (auto simp: Cons.IH update_conv' map_add_def split: option.splits)
qed

lemma map_of_map_snd:
  "map_of (map (\<lambda>kv. (fst kv, f (snd kv))) kvs) k = map_option f (map_of kvs k)"
  by (induction kvs) auto

lemma same_value_listed:
  "iteration_order ord \<Longrightarrow> distinct_keys V \<Longrightarrow> same_value (listed ord V) V"
proof (induction V)
  case (JArr vs)
  then have "\<forall>v \<in> set vs. same_value (listed ord v) v" by (auto simp: list_all_iff)
  then have "list_all2 same_value (map (listed ord) vs) vs"
    by (induction vs) simp_all
  then show ?case by simp
next
  case (JObj kvs)
  have d: "distinct (map fst kvs)" using JObj.prems(2) by simp
  have keys: "set (ord (map fst kvs)) = set (map fst kvs)"
    using JObj.prems(1) d by (simp add: iteration_order_def)
  have "same_value (the (map_of (map (\<lambda>kv. (fst kv, listed ord (snd kv))) kvs) (fst kv'))) (snd kv')"
    if "kv' \<in> set kvs" for kv'
  proof -
    have "map_of kvs (fst kv') = Some (snd kv')"
      using that d map_of_eq_Some_iff[of kvs "fst kv'" "snd kv'"] by simp
    moreover have "snd kv' \<in> Basic_BNFs.snds kv'" by (cases kv') simp
    moreover have "distinct_keys (snd kv')" using that JObj.prems(2) by (auto simp: list_all_iff)
    ultimately show ?thesis using JObj.IH[of kv' "snd kv'"] that JObj.prems(1)
      by (simp add: map_of_map_snd)
  qed
  then show ?case using keys by (auto simp: comp_def)
qed simp_all

lemma map_of_keys_id:
  "distinct (map fst kvs) \<Longrightarrow> map (\<lambda>k. (k, the (map_of kvs k))) (map fst kvs) = kvs"
proof (induction kvs)
  case Nil
  then show ?case by simp
next
  case (Cons kv kvs)
  have "map (\<lambda>k. (k, the (map_of (kv # kvs) k))) (map fst kvs) =
        map (\<lambda>k. (k, the (map_of kvs k))) (map fst kvs)"
    using Cons.prems by (intro map_cong) (auto simp: image_iff)
  with Cons show ?case by (cases kv) simp
qed

lemma listed_insertion_order:
  "distinct_keys V \<Longrightarrow> listed (\<lambda>ks. ks) V = V"
proof (induction V)
  case (JArr vs)
  then show ?case by (auto simp: list_all_iff intro: map_idI)
next
  case (JObj kvs)
  have "map (\<lambda>kv. (fst kv, listed (\<lambda>ks. ks) (snd kv))) kvs = kvs"
  proof (rule map_idI)
    fix kv assume "kv \<in> set kvs"
    moreover have "snd kv \<in> Basic_BNFs.snds kv" by (cases kv) simp
    ultimately have "listed (\<lambda>ks. ks) (snd kv) = snd kv" using JObj by (auto simp: list_all_iff)
    then show "(fst kv, listed (\<lambda>ks. ks) (snd kv)) = kv" by simp
  qed
  moreover have "map (\<lambda>k. (k, the (map_of kvs k))) (map fst kvs) = kvs"
    using JObj.prems by (intro map_of_keys_id) simp
  ultimately show ?case by (simp del: map_map)
qed simp_all

text \<open>
  When the dictionaries of the interpreter list their keys in the order of insertion, the
  keys of \<^verbatim>\<open>value\<close> do come out in the order of their occurrence.
\<close>

lemma build_round_trip_insertion_order:
  "distinct_keys V \<Longrightarrow>
   \<exists>b. feed (events_of V) ObjectBuilder_init = Inr b \<and> value_listed (\<lambda>ks. ks) b = Some V"
  using feed_events_of_init[of V]
  by (auto simp: value_listed_def last_wins_distinct listed_insertion_order)

text \<open>
  C1, as the spec states it, fails in its last part, the order of the keys.  The builder
  makes a plain dictionary (\<^verbatim>\<open>map = {}\<close>), and a Python 2 dictionary lists its keys in an
  order of the interpreter's own, not in the order in which they were inserted.  Fed with
  the events of \<^verbatim>\<open>{"b": 1, "a": 2}\<close> the builder ends with a dictionary that holds 1 under
  \<^verbatim>\<open>b\<close> and 2 under \<^verbatim>\<open>a\<close>.  Under an iteration order that lists \<^verbatim>\<open>a\<close> before \<^verbatim>\<open>b\<close> (CPython 2.7
  does so for these two keys; \<^const>\<open>rev\<close> is such an order) the keys of \<^verbatim>\<open>value\<close> come out
  as \<^verbatim>\<open>a\<close>, \<^verbatim>\<open>b\<close>; the document has them as \<^verbatim>\<open>b\<close>, \<^verbatim>\<open>a\<close>.
\<close>

theorem build_key_order_not_kept:
  "iteration_order rev \<and>
   feed (events_of (JObj [(''b'', JNum 1), (''a'', JNum 2)])) ObjectBuilder_init =
     Inr \<lparr>ob_value = Some (PRef 0), ob_key = Some ''a'', containers = [initial_set],
          ob_heap = [PDict [(''b'', PNum 1), (''a'', PNum 2)]]\<rparr> \<and>
   value_listed rev
     \<lparr>ob_value = Some (PRef 0), ob_key = Some ''a'', containers = [initial_set],
      ob_heap = [PDict [(''b'', PNum 1), (''a'', PNum 2)]]\<rparr> =
     Some (JObj [(''a'', JNum 2), (''b'', JNum 1)]) \<and>
   JObj [(''a'', JNum 2), (''b'', JNum 1)] \<noteq> JObj [(''b'', JNum 1), (''a'', JNum 2)]"
proof (intro conjI)
  show "JObj [(''a'', JNum 2), (''b'', JNum 1)] \<noteq> JObj [(''b'', JNum 1), (''a'', JNum 2)]"
    by simp
  show "iteration_order rev" by (simp add: iteration_order_def)
  show "feed (events_of (JObj [(''b'', JNum 1), (''a'', JNum 2)])) ObjectBuilder_init =
     Inr \<lparr>ob_value = Some (PRef 0), ob_key = Some ''a'', containers = [initial_set],
          ob_heap = [PDict [(''b'', PNum 1), (''a'', PNum 2)]]\<rparr>"
    by code_simp
  show "value_listed rev
     \<lparr>ob_value = Some (PRef 0), ob_key = Some ''a'', containers = [initial_set],
      ob_heap = [PDict [(''b'', PNum 1), (''a'', PNum 2)]]\<rparr> =
     Some (JObj [(''a'', JNum 2), (''b'', JNum 1)])"
    by code_simp
qed

text \<open>
  C1, amended.  For every value \<open>V\<close> in which no object has a key twice, and whatever the
  order in which the interpreter's dictionaries list their keys, feeding the events that
  encode \<open>V\<close>, in order, to a fresh \<^verbatim>\<open>ObjectBuilder\<close> raises nothing and leaves \<^verbatim>\<open>value\<close> the
  same value as \<open>V\<close>: the same scalars, the elements of every array in their order, and in
  every object the keys of \<open>V\<close> with, under each key, the value \<open>V\<close> has there.  The order in
  which an object lists its keys is the interpreter's: it is the order of occurrence of the
  keys when the dictionaries of the interpreter list their keys in the order of insertion
  (which those of Python 2, for which the module is written, do not).
\<close>

theorem build_round_trip_up_to_key_order:
  assumes "distinct_keys V" "iteration_order ord"
  shows "(\<exists>b j. feed (events_of V) ObjectBuilder_init = Inr b \<and>
                value_listed ord b = Some j \<and> same_value j V) \<and>
         (\<exists>b. feed (events_of V) ObjectBuilder_init = Inr b \<and>
              value_listed (\<lambda>ks. ks) b = Some V)"
proof
  obtain b where "feed (events_of V) ObjectBuilder_init = Inr b" "builder_value b = Some (last_wins V)"
    using feed_events_of_init[of V] by blast
  then show "\<exists>b j. feed (events_of V) ObjectBuilder_init = Inr b \<and>
                value_listed ord b = Some j \<and> same_value j V"
    using assms by (auto simp: value_listed_def last_wins_distinct same_value_listed)
  show "\<exists>b. feed (events_of V) ObjectBuilder_init = Inr b \<and> value_listed (\<lambda>ks. ks) b = Some V"
    using assms(1) by (rule build_round_trip_insertion_order)
qed

theorem build_round_trip_up_to_key_order_witness:
  "distinct_keys (JObj [(''b'', JArr [JNum 1, JNum 2]), (''a'', JObj [])]) \<and> iteration_order rev \<and>
   (\<exists>b j. feed (events_of (JObj [(''b'', JArr [JNum 1, JNum 2]), (''a'', JObj [])])) ObjectBuilder_init = Inr b \<and>
        value_listed rev b = Some j \<and>
        same_value j (JObj [(''b'', JArr [JNum 1, JNum 2]), (''a'', JObj [])])) \<and>
   (\<exists>b. feed (events_of (JObj [(''b'', JArr [JNum 1, JNum 2]), (''a'', JObj [])])) ObjectBuilder_init = Inr b \<and>
        value_listed (\<lambda>ks. ks) b = Some (JObj [(''b'', JArr [JNum 1, JNum 2]), (''a'', JObj [])]))"
  using build_round_trip_up_to_key_order [of "JObj [(''b'', JArr [JNum 1, JNum 2]), (''a'', JObj [])]" rev]
  by (simp add: iteration_order_def)

text \<open>
  C9.  For every value \<open>V\<close>, with keys repeated or not, the builder fed with the events of
  \<open>V\<close> ends with \<^verbatim>\<open>value\<close> equal to \<^term>\<open>last_wins V\<close>; and in \<^const>\<open>last_wins\<close> of an object
  the keys are unique and each key has the value (read the same way) of its last occurrence
  in the document.
\<close>

theorem build_last_write_wins:
  "(\<exists>b. feed (events_of V) ObjectBuilder_init = Inr b \<and> builder_value b = Some (last_wins V)) \<and>
   (\<exists>r. last_wins (JObj kvs) = JObj r \<and> distinct (map fst r) \<and>
        (\<forall>k. map_of r k = map_option last_wins (map_of (rev kvs) k)))"
proof
  show "\<exists>b. feed (events_of V) ObjectBuilder_init = Inr b \<and> builder_value b = Some (last_wins V)"
    using feed_events_of_init[of V] by blast
  have "\<forall>k. map_of (foldl (\<lambda>d kv. AList.update (fst kv) (last_wins (snd kv)) d) [] kvs) k =
     map_option last_wins (map_of (rev kvs) k)"
    by (simp add: map_of_foldl_update split: option.splits)
  then show "\<exists>r. last_wins (JObj kvs) = JObj r \<and> distinct (map fst r) \<and>
        (\<forall>k. map_of r k = map_option last_wins (map_of (rev kvs) k))"
    using distinct_foldl_update[of "[]" last_wins kvs] by simp
qed

theorem build_last_write_wins_witness:
  "(\<exists>b. feed (events_of (JObj [(''a'', JNum 1), (''b'', JNull), (''a'', JNum 2)])) ObjectBuilder_init = Inr b \<and>
        builder_value b = Some (JObj [(''a'', JNum 2), (''b'', JNull)])) \<and>
   (\<exists>r. last_wins (JObj [(''a'', JNum 1), (''b'', JNull), (''a'', JNum 2)]) = JObj r \<and>
        distinct (map fst r) \<and> map_of r ''a'' = Some (JNum 2))"
  using build_last_write_wins
    [of "JObj [(''a'', JNum 1), (''b'', JNull), (''a'', JNum 2)]"
        "[(''a'', JNum 1), (''b'', JNull), (''a'', JNum 2)]"]
  by simp

section \<open>Truncated input\<close>

lemma feed_prefix_ok:
  "feed (xs @ ys) b = Inr b' \<Longrightarrow> \<exists>b1. feed xs b = Inr b1"
  by (auto simp: feed_append split: sum.splits)

lemma parse_step_not_incomplete: "parse_step ev p \<noteq> Inl IncompleteJSONError"
  by (cases ev) (auto simp: join_def split: sum.splits if_splits)

lemma parse_from_not_incomplete: "snd (parse_from p evs) \<noteq> Some IncompleteJSONError"
  by (induction evs arbitrary: p)
     (auto simp: parse_from_Cons parse_step_not_incomplete simp del: parse_from.simps(2) split: sum.splits)

lemma call_slot_not_incomplete: "call_slot c v b \<noteq> Inl IncompleteJSONError"
  by (cases c) (auto split: option.splits pyobj.splits)

lemma event_not_incomplete: "ObjectBuilder_event ev b \<noteq> Inl IncompleteJSONError"
  by (cases ev) (auto simp: call_top_def Let_def call_slot_not_incomplete split: sum.splits)

lemma feed_not_incomplete: "feed evs b \<noteq> Inl IncompleteJSONError"
  by (induction evs arbitrary: b) (auto simp: event_not_incomplete split: sum.splits)

lemma build_region_not_incomplete:
  "build_region prefix end_event b pe rest \<noteq> Raised IncompleteJSONError"
proof (induction rest arbitrary: b pe)
  case Nil
  then show ?case
    by (subst build_region.simps) (auto simp: event_not_incomplete split: sum.splits)
next
  case (Cons pe' rest)
  then show ?case
    by (subst build_region.simps) (auto simp: event_not_incomplete split: sum.splits)
qed

lemma items_not_incomplete: "snd (items pevs prefix) \<noteq> Some IncompleteJSONError"
proof (induction pevs rule: length_induct)
  case (1 pevs)
  show ?case
  proof (cases pevs)
    case Nil
    then show ?thesis by simp
  next
    case (Cons pe rest)
    have rest: "snd (items rest prefix) \<noteq> Some IncompleteJSONError"
      using 1 Cons by simp
    have region: "snd (items rest' prefix) \<noteq> Some IncompleteJSONError"
      if "build_region prefix e ObjectBuilder_init pe rest = Built b rest'" for e b rest'
      using 1 Cons build_region_length[OF that] by simp
    show ?thesis
    proof (cases "build_region prefix (end_of (snd pe)) ObjectBuilder_init pe rest")
      case (Built b rest')
      with Cons rest region[OF Built] show ?thesis
        by (auto split: option.splits prod.splits)
    next
      case Exhausted
      with Cons rest show ?thesis by (auto split: prod.splits)
    next
      case (Raised e)
      with Cons rest build_region_not_incomplete[of prefix "end_of (snd pe)" ObjectBuilder_init pe rest]
      show ?thesis by (auto split: prod.splits)
    qed
  qed
qed

text \<open>
  C7, as the spec states it, fails.  On \<^verbatim>\<open>start_map\<close> alone the annotator yields one prefixed
  event and ends normally, the builder holds the empty dictionary as its \<^verbatim>\<open>value\<close>, and
  \<^verbatim>\<open>items\<close> ends normally without a yield; on an empty source the annotator ends normally with
  nothing yielded.  No exception is raised in any of them.
\<close>

theorem start_map_alone_no_fault:
  "parse [start_map] = ([('''', start_map)], None) \<and>
   feed [start_map] ObjectBuilder_init =
     Inr \<lparr>ob_value = Some (PRef 0), ob_key = None, containers = [initial_set, setter 0],
          ob_heap = [PDict []]\<rparr> \<and>
   builder_value \<lparr>ob_value = Some (PRef 0), ob_key = None, containers = [initial_set, setter 0],
          ob_heap = [PDict []]\<rparr> = Some (JObj []) \<and>
   items [('''', start_map)] '''' = ([], None) \<and>
   parse [] = ([], None)"
  by code_simp

text \<open>
  C7, amended.  Cut the events of any value \<open>V\<close> after any number \<open>n\<close> of events: the
  annotator yields a prefixed event for each of them and ends normally, and a fresh builder
  fed with them raises nothing.  On \<^verbatim>\<open>start_map\<close> alone the annotator yields its one prefixed
  event, the builder's \<^verbatim>\<open>value\<close> is the empty dictionary, and \<^verbatim>\<open>items\<close> ends normally without
  a yield.  And on no input at all does \<^verbatim>\<open>parse\<close>, \<^verbatim>\<open>ObjectBuilder\<close> or \<^verbatim>\<open>items\<close> raise
  \<^verbatim>\<open>IncompleteJSONError\<close>: detecting truncation is left to the tokenizer.
\<close>

theorem truncated_input_no_fault:
  "snd (parse (take n (events_of V))) = None \<and>
   map snd (fst (parse (take n (events_of V)))) = take n (events_of V) \<and>
   (\<exists>b. feed (take n (events_of V)) ObjectBuilder_init = Inr b) \<and>
   parse [start_map] = ([('''', start_map)], None) \<and>
   (\<exists>b. feed [start_map] ObjectBuilder_init = Inr b \<and> builder_value b = Some (JObj [])) \<and>
   items (fst (parse [start_map])) '''' = ([], None) \<and>
   snd (parse evs) \<noteq> Some IncompleteJSONError \<and>
   feed evs b0 \<noteq> Inl IncompleteJSONError \<and>
   snd (items pevs prefix) \<noteq> Some IncompleteJSONError"
proof -
  have "snd (parse_from [] (take n (events_of V) @ drop n (events_of V))) = None"
    using parse_events_of [of V] by (simp add: parse_def)
  then have p: "snd (parse (take n (events_of V))) = None"
    unfolding parse_def by (rule parse_from_prefix_ok)
  then have q: "map snd (fst (parse (take n (events_of V)))) = take n (events_of V)"
    unfolding parse_def by (rule length_parse_from_ok)
  obtain b where "feed (take n (events_of V) @ drop n (events_of V)) ObjectBuilder_init = Inr b"
    using feed_events_of_init[of V] by auto
  then have f: "\<exists>b. feed (take n (events_of V)) ObjectBuilder_init = Inr b"
    by (rule feed_prefix_ok)
  have c1: "parse [start_map] = ([('''', start_map)], None)"
    by code_simp
  have c2: "\<exists>b. feed [start_map] ObjectBuilder_init = Inr b \<and> builder_value b = Some (JObj [])"
    by (simp add: ObjectBuilder_init_def call_top_def builder_value_def)
  have c3: "items (fst (parse [start_map])) '''' = ([], None)"
    by code_simp
  have n: "snd (parse evs) \<noteq> Some IncompleteJSONError" "feed evs b0 \<noteq> Inl IncompleteJSONError"
    "snd (items pevs prefix) \<noteq> Some IncompleteJSONError"
    by (simp_all add: parse_def parse_from_not_incomplete feed_not_incomplete items_not_incomplete)
  from p q f c1 c2 c3 n show ?thesis by blast
qed

theorem truncated_input_no_fault_witness:
  "snd (parse (take 3 (events_of (JObj [(''a'', JArr [JNum 1, JNum 2])])))) = None \<and>
   map snd (fst (parse (take 3 (events_of (JObj [(''a'', JArr [JNum 1, JNum 2])]))))) =
     [start_map, map_key ''a'', start_array] \<and>
   (\<exists>b. feed (take 3 (events_of (JObj [(''a'', JArr [JNum 1, JNum 2])]))) ObjectBuilder_init = Inr b)"
  using truncated_input_no_fault [of 3 "JObj [(''a'', JArr [JNum 1, JNum 2])]"]
  by simp

section \<open>Properties of the prefix item extractor\<close>

text \<open>The example of the spec: the target \<^verbatim>\<open>"a.item"\<close> on the events of \<^verbatim>\<open>{"a": [1, 2]}\<close>.\<close>

lemma items_example:
  "items (fst (parse [start_map, map_key ''a'', start_array, number 1, number 2, end_array, end_map]))
     ''a.item'' = ([(PNum 1, []), (PNum 2, [])], None)"
  by code_simp

lemma join_str_append:
  "q \<noteq> [] \<Longrightarrow> r \<noteq> [] \<Longrightarrow> join_str (q @ r) = join_str q @ ''.'' @ join_str r"
proof (induction q rule: join_str.induct)
  case (2 x)
  then show ?case by (cases r) simp_all
qed simp_all

lemma join_str_longer: "q \<noteq> [] \<Longrightarrow> r \<noteq> [] \<Longrightarrow> join_str (q @ r) \<noteq> join_str q"
proof
  assume "q \<noteq> []" "r \<noteq> []" "join_str (q @ r) = join_str q"
  then have "length (join_str q @ ''.'' @ join_str r) = length (join_str q)"
    by (simp add: join_str_append)
  then show False by simp
qed

lemma ends_prefixed:
  "(c, e) \<in> set (prefixed q v) \<Longrightarrow> is_end e \<Longrightarrow> \<exists>r. c = join_str (q @ r)"
proof (induction v arbitrary: q)
  case (JArr vs)
  from JArr.prems consider "c = join_str q" |
    v where "v \<in> set vs" "(c, e) \<in> set (prefixed (q @ [''item'']) v)"
    by auto
  then show ?case
  proof cases
    case 1
    then show ?thesis by (intro exI[of _ "[]"]) simp
  next
    case 2
    then obtain r where "c = join_str ((q @ [''item'']) @ r)" using JArr.IH JArr.prems(2) by blast
    then show ?thesis by (intro exI[of _ "[''item''] @ r"]) simp
  qed
next
  case (JObj kvs)
  from JObj.prems consider "c = join_str q" |
    kv where "kv \<in> set kvs" "(c, e) \<in> set (prefixed (q @ [fst kv]) (snd kv))"
    by auto
  then show ?case
  proof cases
    case 1
    then show ?thesis by (intro exI[of _ "[]"]) simp
  next
    case 2
    moreover have "snd kv \<in> Basic_BNFs.snds kv" by (cases kv) simp
    ultimately obtain r where "c = join_str ((q @ [fst kv]) @ r)"
      using JObj.IH JObj.prems(2) by blast
    then show ?thesis by (intro exI[of _ "[fst kv] @ r"]) simp
  qed
qed auto

lemma map_snd_prefixed: "map snd (prefixed q v) = events_of v"
proof (induction v arbitrary: q)
  case (JArr vs)
  have "map (\<lambda>v. map snd (prefixed (q @ [''item'']) v)) vs = map events_of vs"
    by (rule map_cong[OF refl]) (rule JArr.IH)
  then have "concat (map (\<lambda>v. map snd (prefixed (q @ [''item'']) v)) vs) = concat (map events_of vs)"
    by (rule arg_cong)
  then show ?case by (simp add: map_concat comp_def)
next
  case (JObj kvs)
  have "map (\<lambda>kv. map snd ((join_str q, map_key (fst kv)) # prefixed (q @ [fst kv]) (snd kv))) kvs =
      map (\<lambda>kv. map_key (fst kv) # events_of (snd kv)) kvs"
  proof (rule map_cong[OF refl])
    fix kv assume "kv \<in> set kvs"
    moreover have "snd kv \<in> Basic_BNFs.snds kv" by (cases kv) simp
    ultimately have "map snd (prefixed (q @ [fst kv]) (snd kv)) = events_of (snd kv)"
      using JObj.IH by blast
    then show "map snd ((join_str q, map_key (fst kv)) # prefixed (q @ [fst kv]) (snd kv)) =
      map_key (fst kv) # events_of (snd kv)" by simp
  qed
  then have "concat (map (\<lambda>kv. map snd ((join_str q, map_key (fst kv)) # prefixed (q @ [fst kv]) (snd kv))) kvs) =
      concat (map (\<lambda>kv. map_key (fst kv) # events_of (snd kv)) kvs)"
    by (rule arg_cong)
  then show ?case by (simp add: map_concat comp_def)
qed simp_all

lemma build_region_feed:
  assumes "\<forall>pe \<in> set (pe0 # inner). pe \<noteq> (prefix, e)" "feed (map snd (pe0 # inner)) b = Inr b'"
  shows "build_region prefix e b pe0 (inner @ (prefix, e) # rest) = Built b' rest"
  using assms
proof (induction inner arbitrary: pe0 b)
  case Nil
  from Nil.prems(2) have b': "ObjectBuilder_event (snd pe0) b = Inr b'"
    by (auto split: sum.splits)
  have "build_region prefix e b' (prefix, e) rest = Built b' rest"
    by (subst build_region.simps) simp
  then show ?case using Nil.prems(1) b'
    by (subst build_region.simps) simp
next
  case (Cons pe1 inner)
  from Cons.prems(2) obtain b1 where b1: "ObjectBuilder_event (snd pe0) b = Inr b1"
    "feed (map snd (pe1 # inner)) b1 = Inr b'"
    by (auto split: sum.splits)
  have "build_region prefix e b1 pe1 (inner @ (prefix, e) # rest) = Built b' rest"
    using Cons.prems(1) b1(2) by (intro Cons.IH) simp_all
  then show ?case using Cons.prems(1) b1(1)
    by (subst build_region.simps) simp
qed

lemma yields_of_Nil: "yields_of prefix [] []"
  by (simp add: yields_of_def)

lemma yields_of_append:
  assumes "yields_of prefix xs js1" "yields_of prefix ys js2"
  shows "yields_of prefix (xs @ ys) (js1 @ js2)"
  unfolding yields_of_def
proof
  fix rest
  obtain y2 where y2: "items (ys @ rest) prefix = (y2 @ fst (items rest prefix), snd (items rest prefix))"
    "map as_json y2 = map (\<lambda>v. Some (last_wins v)) js2"
    using assms(2) unfolding yields_of_def by blast
  obtain y1 where y1: "items (xs @ (ys @ rest)) prefix =
      (y1 @ fst (items (ys @ rest) prefix), snd (items (ys @ rest) prefix))"
    "map as_json y1 = map (\<lambda>v. Some (last_wins v)) js1"
    using assms(1) unfolding yields_of_def by blast
  show "\<exists>ys'. items ((xs @ ys) @ rest) prefix = (ys' @ fst (items rest prefix), snd (items rest prefix)) \<and>
        map as_json ys' = map (\<lambda>v. Some (last_wins v)) (js1 @ js2)"
    using y1 y2 by (intro exI[of _ "y1 @ y2"]) simp
qed

lemma yields_of_concat:
  assumes "\<And>x. x \<in> set xs \<Longrightarrow> yields_of prefix (f x) (g x)"
  shows "yields_of prefix (concat (map f xs)) (concat (map g xs))"
  using assms
proof (induction xs)
  case Nil
  then show ?case by (simp add: yields_of_Nil)
next
  case (Cons x xs)
  then show ?case by (simp add: yields_of_append)
qed

lemma yields_of_skip: "c \<noteq> prefix \<Longrightarrow> yields_of prefix [(c, ev)] []"
  by (simp add: yields_of_def)

lemma yields_of_Cons_skip:
  "c \<noteq> prefix \<Longrightarrow> yields_of prefix pevs js \<Longrightarrow> yields_of prefix ((c, ev) # pevs) js"
  using yields_of_append[OF yields_of_skip, of c prefix pevs js ev] by simp

lemma yields_of_scalar:
  assumes "is_scalar ev" "reify 0 [] (event_value ev) = Some (last_wins v)"
  shows "yields_of prefix [(prefix, ev)] [v]"
  unfolding yields_of_def
proof
  fix rest
  have "ev \<noteq> start_map" "ev \<noteq> start_array" using assms(1) by auto
  then have "items ([(prefix, ev)] @ rest) prefix =
      ([(event_value ev, [])] @ fst (items rest prefix), snd (items rest prefix))"
    by (simp split: prod.splits)
  moreover have "map as_json [(event_value ev, [])] = map (\<lambda>v. Some (last_wins v)) [v]"
    using assms(2) by (simp add: as_json_def)
  ultimately show "\<exists>ys. items ([(prefix, ev)] @ rest) prefix = (ys @ fst (items rest prefix), snd (items rest prefix)) \<and>
        map as_json ys = map (\<lambda>v. Some (last_wins v)) [v]"
    by blast
qed

lemma feed_all_but_end:
  assumes "events_of v = evs @ [e]" "is_end e"
  shows "\<exists>b x. feed evs ObjectBuilder_init = Inr b \<and> ob_value b = Some x \<and>
           reify (length (ob_heap b)) (ob_heap b) x = Some (last_wins v)"
proof -
  obtain b'' where b'': "feed (evs @ [e]) ObjectBuilder_init = Inr b''"
    "builder_value b'' = Some (last_wins v)"
    using feed_events_of_init[of v] assms(1) by auto
  then obtain b where b: "feed evs ObjectBuilder_init = Inr b" "ObjectBuilder_event e b = Inr b''"
    by (auto simp: feed_append split: sum.splits)
  from b(2) assms(2) have "ob_value b'' = ob_value b" "ob_heap b'' = ob_heap b"
    by (cases e; auto split: if_splits)+
  with b''(2) b(1) show ?thesis
    by (auto simp: builder_value_def split: option.splits)
qed

lemma yields_of_region:
  assumes pre: "pevs = (prefix, ev) # inner @ [(prefix, end_of ev)]"
    and ev: "ev = start_map \<or> ev = start_array"
    and evs: "map snd pevs = events_of v"
    and inner: "\<forall>pe \<in> set inner. pe \<noteq> (prefix, end_of ev)"
  shows "yields_of prefix pevs [v]"
  unfolding yields_of_def
proof
  fix rest
  have e: "is_end (end_of ev)" "(prefix, ev) \<noteq> (prefix, end_of ev)" using ev by auto
  have "events_of v = map snd ((prefix, ev) # inner) @ [end_of ev]"
    using evs pre by simp
  then obtain b x where b: "feed (map snd ((prefix, ev) # inner)) ObjectBuilder_init = Inr b"
    "ob_value b = Some x" "reify (length (ob_heap b)) (ob_heap b) x = Some (last_wins v)"
    using feed_all_but_end[OF _ e(1)] by blast
  have "build_region prefix (end_of ev) ObjectBuilder_init (prefix, ev) (inner @ (prefix, end_of ev) # rest)
      = Built b rest"
    using inner e(2) b(1) by (intro build_region_feed) simp_all
  then have "items (pevs @ rest) prefix = ([(x, ob_heap b)] @ fst (items rest prefix), snd (items rest prefix))"
    using ev b(2) by (simp add: pre split: prod.splits)
  moreover have "map as_json [(x, ob_heap b)] = map (\<lambda>v. Some (last_wins v)) [v]"
    using b(3) by (simp add: as_json_def)
  ultimately show "\<exists>ys. items (pevs @ rest) prefix = (ys @ fst (items rest prefix), snd (items rest prefix)) \<and>
        map as_json ys = map (\<lambda>v. Some (last_wins v)) [v]"
    by blast
qed

lemma inner_not_end:
  assumes "join_str q = prefix" "prefix \<noteq> []" "pe \<in> set (prefixed (q @ [seg]) v)"
  shows "pe \<noteq> (prefix, e) \<or> \<not> is_end e"
proof (rule ccontr)
  assume "\<not> (pe \<noteq> (prefix, e) \<or> \<not> is_end e)"
  then have pe: "pe = (prefix, e)" and e: "is_end e" by simp_all
  then obtain r where "prefix = join_str ((q @ [seg]) @ r)"
    using assms(3) ends_prefixed by blast
  then have "join_str (q @ (seg # r)) = join_str q" using assms(1) by simp
  moreover have "q \<noteq> []" using assms(1,2) by auto
  ultimately show False using join_str_longer[of q "seg # r"] by simp
qed

lemma items_at_prefix:
  "prefix \<noteq> [] \<Longrightarrow> yields_of prefix (prefixed q v) (occurrences prefix q v)"
proof (induction v arbitrary: q)
  case JNull
  then show ?case by (auto intro: yields_of_scalar yields_of_skip)
next
  case (JBool x)
  then show ?case by (auto intro: yields_of_scalar yields_of_skip)
next
  case (JNum x)
  then show ?case by (auto intro: yields_of_scalar yields_of_skip)
next
  case (JStr x)
  then show ?case by (auto intro: yields_of_scalar yields_of_skip)
next
  case (JArr vs)
  show ?case
  proof (cases "join_str q = prefix")
    case True
    have "yields_of prefix (prefixed q (JArr vs)) [JArr vs]"
    proof (rule yields_of_region[where ev = start_array
          and inner = "concat (map (prefixed (q @ [''item''])) vs)"])
      show "\<forall>pe\<in>set (concat (map (prefixed (q @ [''item''])) vs)). pe \<noteq> (prefix, end_of start_array)"
        using inner_not_end[OF True JArr.prems, where e = end_array] by auto
      show "map snd (prefixed q (JArr vs)) = events_of (JArr vs)" by (rule map_snd_prefixed)
    qed (simp_all add: True)
    with True show ?thesis by simp
  next
    case False
    have "yields_of prefix (concat (map (prefixed (q @ [''item''])) vs))
        (concat (map (occurrences prefix (q @ [''item''])) vs))"
      using JArr by (intro yields_of_concat) simp
    then have "yields_of prefix (concat (map (prefixed (q @ [''item''])) vs) @ [(join_str q, end_array)])
        (concat (map (occurrences prefix (q @ [''item''])) vs) @ [])"
      using False by (intro yields_of_append yields_of_skip)
    then show ?thesis using False by (simp add: yields_of_Cons_skip)
  qed
next
  case (JObj kvs)
  show ?case
  proof (cases "join_str q = prefix")
    case True
    have "yields_of prefix (prefixed q (JObj kvs)) [JObj kvs]"
    proof (rule yields_of_region[where ev = start_map
          and inner = "concat (map (\<lambda>kv. (join_str q, map_key (fst kv)) # prefixed (q @ [fst kv]) (snd kv)) kvs)"])
      show "\<forall>pe\<in>set (concat (map (\<lambda>kv. (join_str q, map_key (fst kv)) # prefixed (q @ [fst kv]) (snd kv)) kvs)).
          pe \<noteq> (prefix, end_of start_map)"
        using inner_not_end[OF True JObj.prems, where e = end_map] by auto
      show "map snd (prefixed q (JObj kvs)) = events_of (JObj kvs)" by (rule map_snd_prefixed)
    qed (simp_all add: True)
    with True show ?thesis by simp
  next
    case False
    have "yields_of prefix
        (concat (map (\<lambda>kv. (join_str q, map_key (fst kv)) # prefixed (q @ [fst kv]) (snd kv)) kvs))
        (concat (map (\<lambda>kv. occurrences prefix (q @ [fst kv]) (snd kv)) kvs))"
    proof (rule yields_of_concat)
      fix kv assume "kv \<in> set kvs"
      moreover have "snd kv \<in> Basic_BNFs.snds kv" by (cases kv) simp
      ultimately have "yields_of prefix (prefixed (q @ [fst kv]) (snd kv)) (occurrences prefix (q @ [fst kv]) (snd kv))"
        using JObj by blast
      then show "yields_of prefix ((join_str q, map_key (fst kv)) # prefixed (q @ [fst kv]) (snd kv))
          (occurrences prefix (q @ [fst kv]) (snd kv))"
        using False by (intro yields_of_Cons_skip)
    qed
    then have "yields_of prefix
        (concat (map (\<lambda>kv. (join_str q, map_key (fst kv)) # prefixed (q @ [fst kv]) (snd kv)) kvs) @
         [(join_str q, end_map)])
        (concat (map (\<lambda>kv. occurrences prefix (q @ [fst kv]) (snd kv)) kvs) @ [])"
      using False by (intro yields_of_append yields_of_skip)
    then show ?thesis using False by (simp add: yields_of_Cons_skip)
  qed
qed

text \<open>
  For every value and every target prefix other than \<^verbatim>\<open>""\<close>, \<^verbatim>\<open>items\<close> on the annotated events
  of the value ends normally and yields exactly the values at that prefix, in document order,
  each as the tree its builder made (repeated keys resolved as in \<^const>\<open>last_wins\<close>).
\<close>

lemma items_yields_occurrences:
  assumes "prefix \<noteq> []"
  shows "snd (items (fst (parse (events_of V))) prefix) = None \<and>
         map as_json (fst (items (fst (parse (events_of V))) prefix)) =
           map (\<lambda>v. Some (last_wins v)) (occurrences prefix [] V)"
proof -
  have "yields_of prefix (prefixed [] V) (occurrences prefix [] V)"
    using assms by (rule items_at_prefix)
  then obtain ys where "items (prefixed [] V @ []) prefix = (ys @ fst (items [] prefix), snd (items [] prefix))"
    "map as_json ys = map (\<lambda>v. Some (last_wins v)) (occurrences prefix [] V)"
    unfolding yields_of_def by blast
  then show ?thesis by (simp add: parse_events_of)
qed

text \<open>
  C2 fails on the code.  The document \<^verbatim>\<open>{"": {}}\<close> has one value at the prefix \<^verbatim>\<open>""\<close>, itself.
  Its inner \<^verbatim>\<open>end_map\<close> carries the prefix \<^verbatim>\<open>""\<close> too (the join of the one segment \<^verbatim>\<open>""\<close>), so
  the inner loop of \<^verbatim>\<open>items\<close> takes it for the end of the region; the outer \<^verbatim>\<open>end_map\<close> is then
  an event at the target prefix that is no start event, and its \<^verbatim>\<open>value\<close>, \<^verbatim>\<open>None\<close>, is yielded
  as a second item.
\<close>

theorem items_empty_key_extra_item:
  "parse (events_of (JObj [('''', JObj [])])) =
     ([('''', start_map), ('''', map_key ''''), ('''', start_map), ('''', end_map), ('''', end_map)],
      None) \<and>
   items (fst (parse (events_of (JObj [('''', JObj [])])))) '''' =
     ([(PRef 0, [PDict [('''', PRef 1)], PDict []]), (PNone, [])], None) \<and>
   map as_json (fst (items (fst (parse (events_of (JObj [('''', JObj [])])))) '''')) =
     [Some (JObj [('''', JObj [])]), Some JNull]"
  by code_simp

section \<open>Properties of the hybrid structure\<close>

subsection \<open>The two stacks\<close>

lemma push_container_stacks:
  "push_container this s = Inr s' \<Longrightarrow>
   keys_stack s' = keys_stack s @ [''item''] \<and> data_stack s' = data_stack s @ [this] \<and>
   target s' = target s \<and> yield_flag s' = yield_flag s \<and> first s' = first s"
  by (auto simp: push_container_def split: sum.splits if_splits)

lemma store_scalar_stacks:
  "store_scalar v s = Inr s' \<Longrightarrow>
   keys_stack s' = keys_stack s \<and> data_stack s' = data_stack s \<and>
   target s' = target s \<and> yield_flag s' = yield_flag s \<and> first s' = first s"
  by (auto simp: store_scalar_def split: sum.splits if_splits)

lemma push_container_move:
  "is_start ev \<Longrightarrow> push_container this s0 = Inr s' \<Longrightarrow> keys_stack s0 = keys_stack s \<Longrightarrow>
   data_stack s0 = data_stack s \<Longrightarrow> stacks_move ev s s'"
  by (drule push_container_stacks) (simp add: stacks_move_def)

lemma store_scalar_move:
  "\<not> is_start ev \<Longrightarrow> \<not> is_end ev \<Longrightarrow> store_scalar v s = Inr s' \<Longrightarrow> stacks_move ev s s'"
  by (drule store_scalar_stacks) (simp add: stacks_move_def)

lemma start_parse_step_move:
  assumes "start_parse_step ev s = Inr (s', brk)"
  shows "stacks_move ev s s'"
proof (cases "is_start ev")
  case True
  with assms show ?thesis
    by (auto simp: start_parse_step_def split: if_splits sum.splits
             elim!: push_container_move[OF True])
next
  case False
  show ?thesis
  proof (cases "is_end ev")
    case True
    with False assms show ?thesis
      by (auto simp: start_parse_step_def stacks_move_def split: if_splits)
  next
    case notend: False
    show ?thesis
    proof (cases "\<exists>k. ev = map_key k")
      case True
      with assms show ?thesis
        by (auto simp: start_parse_step_def stacks_move_def split: if_splits)
    next
      case nokey: False
      with False notend assms have "\<exists>s1. store_scalar (event_value ev) s = Inr s1 \<and> s' = s1"
        by (cases ev) (simp_all add: start_parse_step_def split: sum.splits)
      with False notend show ?thesis by (auto elim: store_scalar_move)
    qed
  qed
qed

lemma generator_branch_move:
  assumes "generator_branch ev s = Inr (s', v)"
  shows "stacks_move ev s s'"
proof (cases "is_start ev")
  case True
  with assms show ?thesis
    by (auto simp: generator_branch_def split: if_splits sum.splits
             elim!: push_container_move[OF True])
next
  case False
  show ?thesis
  proof (cases "is_end ev")
    case True
    with False assms show ?thesis
      by (auto simp: generator_branch_def stacks_move_def split: if_splits)
  next
    case notend: False
    show ?thesis
    proof (cases "\<exists>k. ev = map_key k")
      case True
      with assms show ?thesis
        by (auto simp: generator_branch_def stacks_move_def split: if_splits)
    next
      case nokey: False
      with False notend assms
      have "\<exists>s1. store_scalar (event_value ev) s = Inr s1 \<and> s' = s1\<lparr>yield_flag := True\<rparr>"
        by (cases ev) (simp_all add: generator_branch_def split: sum.splits)
      then obtain s1 where s1: "store_scalar (event_value ev) s = Inr s1" "s' = s1\<lparr>yield_flag := True\<rparr>"
        by blast
      from False notend s1(1) have "stacks_move ev s s1" by (rule store_scalar_move)
      with s1(2) show ?thesis by (simp add: stacks_move_def)
    qed
  qed
qed

lemma json_generator_step_move:
  assumes "json_generator_step ev s = Inr (s', y)"
  shows "stacks_move ev s s'"
proof -
  from assms obtain s1 v where b: "generator_branch ev s = Inr (s1, v)"
    and s': "s' = s1 \<or> s' = s1\<lparr>yield_flag := False\<rparr>"
    by (auto simp: json_generator_step_def split: sum.splits if_splits)
  from b have "stacks_move ev s s1" by (rule generator_branch_move)
  with s' show ?thesis by (auto simp: stacks_move_def)
qed

lemma stacks_move_length:
  assumes "stacks_move ev s s'" and "length (keys_stack s) = length (data_stack s)"
  shows "length (keys_stack s') = length (data_stack s')"
proof (cases "is_start ev")
  case True
  with assms(1) have k: "keys_stack s' = keys_stack s @ [''item'']"
    and d: "butlast (data_stack s') = data_stack s" "data_stack s' \<noteq> []"
    by (simp_all add: stacks_move_def)
  from d have "length (data_stack s') = Suc (length (data_stack s))"
    by (metis append_butlast_last_id length_append_singleton)
  with k assms(2) show ?thesis by simp
next
  case False
  with assms show ?thesis by (auto simp: stacks_move_def split: if_splits)
qed

lemma reach_stacks: "reach prefix ph s \<Longrightarrow> length (keys_stack s) = length (data_stack s)"
proof (induction rule: reach.induct)
  case (reach_init prefix)
  then show ?case by (simp add: ijsondict_init_def)
next
  case (reach_descend prefix s ev s')
  then show ?case by (auto dest!: start_parse_step_move stacks_move_length)
next
  case (reach_break prefix s ev s')
  then show ?case by (auto dest!: start_parse_step_move stacks_move_length)
next
  case (reach_start prefix s s')
  then show ?case by (auto simp: json_generator_start_def split: if_splits)
next
  case (reach_stream prefix s ev s' y)
  then show ?case by (auto dest!: json_generator_step_move stacks_move_length)
qed

lemma reach_start_parse:
  "reach prefix Descending s \<Longrightarrow> start_parse evs s = Inr (s', rest, brk) \<Longrightarrow>
   reach prefix (if brk then Handed else Descending) s'"
proof (induction evs arbitrary: s)
  case Nil
  then show ?case by auto
next
  case (Cons ev evs)
  from Cons.prems(2) obtain s1 b where step: "start_parse_step ev s = Inr (s1, b)"
    by (auto split: sum.splits)
  show ?case
  proof (cases b)
    case True
    with step Cons.prems(2) have "s' = s1" "brk" by auto
    moreover have "reach prefix Handed s1" using Cons.prems(1) step True by (auto intro: reach_break)
    ultimately show ?thesis by simp
  next
    case False
    with step Cons.prems(2) have "start_parse evs s1 = Inr (s', rest, brk)" by simp
    moreover have "reach prefix Descending s1"
      using Cons.prems(1) step False by (auto intro: reach_descend)
    ultimately show ?thesis by (rule Cons.IH[rotated])
  qed
qed

lemma reach_generator_loop:
  "reach prefix Streaming s \<Longrightarrow> json_generator_loop evs s = (ys, Inr s') \<Longrightarrow>
   reach prefix Streaming s'"
proof (induction evs arbitrary: s ys)
  case Nil
  then show ?case by auto
next
  case (Cons ev evs)
  from Cons.prems(2) obtain s1 y ys1 where step: "json_generator_step ev s = Inr (s1, y)"
    and rest: "json_generator_loop evs s1 = (ys1, Inr s')"
    by (auto split: sum.splits prod.splits)
  from Cons.prems(1) step have "reach prefix Streaming s1" by (rule reach_stream)
  then show ?case using rest by (rule Cons.IH)
qed

lemma reach_generator:
  "reach prefix Handed s \<Longrightarrow> json_generator evs s = (ys, Inr s') \<Longrightarrow> reach prefix Streaming s'"
  unfolding json_generator_def
  by (auto split: sum.splits dest: reach_start elim: reach_generator_loop)

text \<open>
  C6.  In every state of a pass (in the loop of \<^verbatim>\<open>_start_parse\<close>, between its \<^verbatim>\<open>break\<close> and the
  start of the generator, and in the generator) the keys stack and the data stack have the
  same length; and an iteration of either loop that does not raise moves both stacks
  together: a start event pushes one entry onto each, an end event pops one from each.
\<close>

theorem stacks_equal_length:
  "reach prefix ph s \<Longrightarrow>
   length (keys_stack s) = length (data_stack s) \<and>
   (\<forall>ev s' brk. start_parse_step ev s = Inr (s', brk) \<longrightarrow> stacks_move ev s s') \<and>
   (\<forall>ev s' y. json_generator_step ev s = Inr (s', y) \<longrightarrow> stacks_move ev s s')"
  by (auto dest: reach_stacks start_parse_step_move json_generator_step_move)

theorem stacks_equal_length_witness:
  "reach (Inl ''a.item'') Streaming
     \<lparr>keys_stack = [''a'', ''item''], data_stack = [PRef 0, PRef 1], target = [''a'', ''item''],
      store = [PDict [(''a'', PGen)], PList [PNum 1]], first = False, yield_flag = False\<rparr> \<and>
   length [''a'', ''item''] = length [PRef 0, PRef 1]"
proof -
  have r0: "reach (Inl ''a.item'') Descending (ijsondict_init (Inl ''a.item''))"
    by (rule reach_init)
  have sp: "start_parse [start_map, map_key ''a'', start_array] (ijsondict_init (Inl ''a.item'')) =
     Inr (\<lparr>keys_stack = [''a'', ''item''], data_stack = [PRef 0, PGen], target = [''a'', ''item''],
           store = [PDict [(''a'', PGen)]], first = False, yield_flag = False\<rparr>, [], True)"
    by code_simp
  have "reach (Inl ''a.item'') Handed
     \<lparr>keys_stack = [''a'', ''item''], data_stack = [PRef 0, PGen], target = [''a'', ''item''],
      store = [PDict [(''a'', PGen)]], first = False, yield_flag = False\<rparr>"
    using reach_start_parse [OF r0 sp] by simp
  moreover have "json_generator [number 1]
     \<lparr>keys_stack = [''a'', ''item''], data_stack = [PRef 0, PGen], target = [''a'', ''item''],
      store = [PDict [(''a'', PGen)]], first = False, yield_flag = False\<rparr> =
     ([PNum 1], Inr \<lparr>keys_stack = [''a'', ''item''], data_stack = [PRef 0, PRef 1],
        target = [''a'', ''item''], store = [PDict [(''a'', PGen)], PList [PNum 1]],
        first = False, yield_flag = False\<rparr>)"
    by code_simp
  ultimately have r: "reach (Inl ''a.item'') Streaming
     \<lparr>keys_stack = [''a'', ''item''], data_stack = [PRef 0, PRef 1], target = [''a'', ''item''],
      store = [PDict [(''a'', PGen)], PList [PNum 1]], first = False, yield_flag = False\<rparr>"
    by (rule reach_generator)
  from stacks_equal_length [OF r] r show ?thesis by simp
qed

subsection \<open>What the generator yields\<close>

text \<open>
  What does hold of every iteration of the generator: a yield happens only with the keys
  stack equal to the target path, and it clears \<^verbatim>\<open>yield_flag\<close>.
\<close>

lemma generator_yields_only_at_target:
  assumes "json_generator_step ev s = Inr (s', Some v)"
  shows "keys_stack s' = target s' \<and> \<not> yield_flag s'"
proof -
  from assms obtain s1 where "generator_branch ev s = Inr (s1, v)"
    "yield_flag s1" "keys_stack s1 = target s1" "s' = s1\<lparr>yield_flag := False\<rparr>"
    by (auto simp: json_generator_step_def split: sum.splits if_splits)
  then show ?thesis by simp
qed

text \<open>
  C4 fails on the code.  The document is \<^verbatim>\<open>[{"data": [1]}, {"data": [2]}]\<close>, the target
  \<^verbatim>\<open>"item.data.item"\<close>.  Two values are completed at the target path, 1 and 2; the generator
  yields three times.  The \<^verbatim>\<open>end_array\<close> and \<^verbatim>\<open>end_map\<close> that close the first record leave
  \<^verbatim>\<open>yield_flag\<close> set at shallower paths, and the \<^verbatim>\<open>start_array\<close> of the second record, which
  brings the keys stack back to the target, yields its own \<^verbatim>\<open>value\<close>, \<^verbatim>\<open>None\<close>.
\<close>

theorem generator_stale_flag_yields_none:
  "start_parse (events_of (JArr [JObj [(''data'', JArr [JNum 1])], JObj [(''data'', JArr [JNum 2])]]))
     (ijsondict_init (Inl ''item.data.item'')) =
     Inr (\<lparr>keys_stack = [''item'', ''data'', ''item''], data_stack = [PRef 0, PRef 1, PGen],
           target = [''item'', ''data'', ''item''],
           store = [PDict [(''item'', PRef 1)], PDict [(''data'', PGen)]],
           first = False, yield_flag = False\<rparr>,
          [number 1, end_array, end_map, start_map, map_key ''data'', start_array, number 2,
           end_array, end_map, end_array], True) \<and>
   fst (json_generator
          [number 1, end_array, end_map, start_map, map_key ''data'', start_array, number 2,
           end_array, end_map, end_array]
          \<lparr>keys_stack = [''item'', ''data'', ''item''], data_stack = [PRef 0, PRef 1, PGen],
           target = [''item'', ''data'', ''item''],
           store = [PDict [(''item'', PRef 1)], PDict [(''data'', PGen)]],
           first = False, yield_flag = False\<rparr>) = [PNum 1, PNone, PNum 2] \<and>
   json_generator_step start_array
     \<lparr>keys_stack = [''item'', ''data''], data_stack = [PRef 0, PRef 3],
      target = [''item'', ''data'', ''item''],
      store = [PDict [(''item'', PRef 3)], PDict [(''data'', PGen)], PList [PNum 1], PDict []],
      first = False, yield_flag = True\<rparr> =
     Inr (\<lparr>keys_stack = [''item'', ''data'', ''item''], data_stack = [PRef 0, PRef 3, PRef 4],
           target = [''item'', ''data'', ''item''],
           store = [PDict [(''item'', PRef 3)], PDict [(''data'', PGen)], PList [PNum 1],
                    PDict [(''data'', PRef 4)], PList []],
           first = False, yield_flag = False\<rparr>, Some PNone)"
  by code_simp

subsection \<open>The generator on the events of a value\<close>

lemma link_linked: "a < length h \<Longrightarrow> link (PRef a) k x h = Inr (linked a k x h)"
  by (simp add: link_def linked_def split: pyobj.splits)

lemma length_linked [simp]: "length (linked a k x h) = length h"
  by (simp add: linked_def split: pyobj.splits)

lemma linked_append: "a < length h \<Longrightarrow> linked a k x (h @ e) = linked a k x h @ e"
  by (simp add: linked_def nth_append list_update_append1 split: pyobj.splits)

lemma linked_list: "a < length h \<Longrightarrow> h ! a = PList xs \<Longrightarrow> linked a k x h = h[a := PList (xs @ [x])]"
  by (simp add: linked_def)

lemma linked_dict:
  "a < length h \<Longrightarrow> h ! a = PDict d \<Longrightarrow> linked a k x h = h[a := PDict (AList.update k x d)]"
  by (simp add: linked_def)

lemma neq_by_length: "length xs \<noteq> length ys \<Longrightarrow> xs \<noteq> ys"
  by auto

lemma gen_step_scalar:
  assumes "is_scalar ev" "top_at s a"
  shows "json_generator_step ev s =
     Inr (s\<lparr>store := linked a (last (keys_stack s)) (event_value ev) (store s),
             yield_flag := (keys_stack s \<noteq> target s)\<rparr>,
          if keys_stack s = target s then Some (event_value ev) else None)"
proof -
  have "store_scalar (event_value ev) s =
      Inr (s\<lparr>store := linked a (last (keys_stack s)) (event_value ev) (store s)\<rparr>)"
    using assms(2) by (simp add: store_scalar_def top_at_def link_linked)
  then have "generator_branch ev s =
      Inr (s\<lparr>store := linked a (last (keys_stack s)) (event_value ev) (store s),
              yield_flag := True\<rparr>, event_value ev)"
    using assms(1) by (cases ev) (simp_all add: generator_branch_def)
  then show ?thesis by (simp add: json_generator_step_def)
qed

lemma gen_step_start:
  assumes "is_start ev" "top_at s a" "length (target s) \<le> length (keys_stack s)"
  shows "json_generator_step ev s =
     Inr (s\<lparr>store := linked a (last (keys_stack s)) (PRef (length (store s))) (store s) @ [classmap ev],
             data_stack := data_stack s @ [PRef (length (store s))],
             keys_stack := keys_stack s @ [''item'']\<rparr>, None)"
proof -
  have "push_container (PRef (length (store s))) (s\<lparr>store := store s @ [classmap ev]\<rparr>) =
     Inr (s\<lparr>store := linked a (last (keys_stack s)) (PRef (length (store s))) (store s) @ [classmap ev],
             data_stack := data_stack s @ [PRef (length (store s))],
             keys_stack := keys_stack s @ [''item'']\<rparr>)"
    using assms(2) by (simp add: push_container_def top_at_def link_linked linked_append)
  then have "generator_branch ev s =
     Inr (s\<lparr>store := linked a (last (keys_stack s)) (PRef (length (store s))) (store s) @ [classmap ev],
             data_stack := data_stack s @ [PRef (length (store s))],
             keys_stack := keys_stack s @ [''item'']\<rparr>, event_value ev)"
    using assms(1) by (simp add: generator_branch_def)
  moreover have "length (keys_stack s @ [''item'']) \<noteq> length (target s)"
    using assms(3) by simp
  then have "keys_stack s @ [''item''] \<noteq> target s" by (rule neq_by_length)
  ultimately show ?thesis by (simp add: json_generator_step_def)
qed

lemma gen_step_end:
  assumes "is_end ev" "keys_stack s \<noteq> []" "data_stack s \<noteq> []"
  shows "json_generator_step ev s =
     Inr (s\<lparr>keys_stack := butlast (keys_stack s), data_stack := butlast (data_stack s),
             yield_flag := (butlast (keys_stack s) \<noteq> target s)\<rparr>,
          if butlast (keys_stack s) = target s then Some (last (data_stack s)) else None)"
proof -
  have "\<not> is_start ev" using assms(1) by (cases ev) simp_all
  then have "generator_branch ev s =
     Inr (s\<lparr>keys_stack := butlast (keys_stack s), data_stack := butlast (data_stack s),
             yield_flag := True\<rparr>, last (data_stack s))"
    using assms by (simp add: generator_branch_def)
  then show ?thesis by (simp add: json_generator_step_def)
qed

lemma gen_step_map_key:
  assumes "keys_stack s \<noteq> []" "length (target s) < length (keys_stack s)"
  shows "json_generator_step (map_key k) s =
     Inr (s\<lparr>keys_stack := butlast (keys_stack s) @ [k]\<rparr>, None)"
proof -
  have "generator_branch (map_key k) s = Inr (s\<lparr>keys_stack := butlast (keys_stack s) @ [k]\<rparr>, PStr k)"
    using assms(1) by (simp add: generator_branch_def)
  moreover have "length (butlast (keys_stack s) @ [k]) \<noteq> length (target s)"
    using assms by simp
  then have "butlast (keys_stack s) @ [k] \<noteq> target s" by (rule neq_by_length)
  ultimately show ?thesis by (simp add: json_generator_step_def)
qed

lemma loop_single:
  "json_generator_step ev s = Inr (s', y) \<Longrightarrow>
   json_generator_loop [ev] s = ((case y of None \<Rightarrow> [] | Some v \<Rightarrow> [v]), Inr s')"
  by (simp split: option.splits)

lemma loop_append:
  "json_generator_loop xs s = (o1, Inr s1) \<Longrightarrow> json_generator_loop ys s1 = (o2, r) \<Longrightarrow>
   json_generator_loop (xs @ ys) s = (o1 @ o2, r)"
proof (induction xs arbitrary: s o1)
  case Nil
  then show ?case by simp
next
  case (Cons ev xs)
  from Cons.prems(1) obtain s0 y o0 where step: "json_generator_step ev s = Inr (s0, y)"
    and rest: "json_generator_loop xs s0 = (o0, Inr s1)"
    and o1: "o1 = (case y of None \<Rightarrow> o0 | Some v \<Rightarrow> v # o0)"
    by (auto split: sum.splits prod.splits)
  from Cons.IH[OF rest Cons.prems(2)] step o1 show ?case
    by (simp split: option.splits)
qed

lemma loop_Cons:
  "json_generator_step ev s = Inr (s0, y) \<Longrightarrow> json_generator_loop xs s0 = (o2, r) \<Longrightarrow>
   json_generator_loop (ev # xs) s = ((case y of None \<Rightarrow> [] | Some v \<Rightarrow> [v]) @ o2, r)"
  by (simp split: option.splits)

lemma streamedD:
  assumes "streamed v s a"
  obtains s' x ext where
    "json_generator_loop (events_of v) s = ((if keys_stack s = target s then [x] else []), Inr s')"
    "keys_stack s' = keys_stack s" "data_stack s' = data_stack s" "target s' = target s"
    "yield_flag s' = (keys_stack s \<noteq> target s)"
    "store s' = linked a (last (keys_stack s)) x (store s) @ ext"
    "denotes_all (length (store s)) ext [x] [last_wins v]"
  using assms unfolding streamed_def by blast

lemma stream_elements:
  assumes IH: "\<And>v s a. v \<in> set vs \<Longrightarrow> top_at s a \<Longrightarrow>
                 length (target s) \<le> length (keys_stack s) \<Longrightarrow> streamed v s a"
    and "top_at s a" "store s ! a = PList xs0" "length (target s) \<le> length (keys_stack s)"
  shows "\<exists>s' xs ext.
           json_generator_loop (concat (map events_of vs)) s =
             ((if keys_stack s = target s then xs else []), Inr s') \<and>
           keys_stack s' = keys_stack s \<and> data_stack s' = data_stack s \<and> target s' = target s \<and>
           (vs \<noteq> [] \<longrightarrow> yield_flag s' = (keys_stack s \<noteq> target s)) \<and>
           (vs = [] \<longrightarrow> s' = s) \<and>
           store s' = (store s)[a := PList (xs0 @ xs)] @ ext \<and> length xs = length vs \<and>
           denotes_all (length (store s)) ext xs (map last_wins vs)"
  using assms
proof (induction vs arbitrary: s xs0)
  case Nil
  have "(store s)[a := PList xs0] = store s"
    using Nil.prems by (metis list_update_id)
  then show ?case by (auto simp: denotes_all_Nil intro!: exI[of _ s] exI[of _ "[]"])
next
  case (Cons v vs)
  have a: "a < length (store s)" using Cons.prems(2) by (simp add: top_at_def)
  have "streamed v s a" using Cons.prems by simp
  then obtain s1 x e1 where s1:
    "json_generator_loop (events_of v) s = ((if keys_stack s = target s then [x] else []), Inr s1)"
    "keys_stack s1 = keys_stack s" "data_stack s1 = data_stack s" "target s1 = target s"
    "yield_flag s1 = (keys_stack s \<noteq> target s)"
    "store s1 = linked a (last (keys_stack s)) x (store s) @ e1"
    "denotes_all (length (store s)) e1 [x] [last_wins v]"
    by (rule streamedD)
  have st1: "store s1 = (store s)[a := PList (xs0 @ [x])] @ e1"
    using s1(6) a Cons.prems(3) by (simp add: linked_list)
  have top1: "top_at s1 a" using Cons.prems(2) s1(2,3) st1 a by (simp add: top_at_def)
  have at1: "store s1 ! a = PList (xs0 @ [x])" using st1 a by (simp add: nth_append)
  have len1: "length (target s1) \<le> length (keys_stack s1)" using Cons.prems(4) s1(2,4) by simp
  have "\<exists>s' xs ext.
           json_generator_loop (concat (map events_of vs)) s1 =
             ((if keys_stack s1 = target s1 then xs else []), Inr s') \<and>
           keys_stack s' = keys_stack s1 \<and> data_stack s' = data_stack s1 \<and> target s' = target s1 \<and>
           (vs \<noteq> [] \<longrightarrow> yield_flag s' = (keys_stack s1 \<noteq> target s1)) \<and>
           (vs = [] \<longrightarrow> s' = s1) \<and>
           store s' = (store s1)[a := PList ((xs0 @ [x]) @ xs)] @ ext \<and> length xs = length vs \<and>
           denotes_all (length (store s1)) ext xs (map last_wins vs)"
    using Cons.prems(1) top1 at1 len1 by (intro Cons.IH) simp_all
  then obtain s2 xs e2 where s2:
    "json_generator_loop (concat (map events_of vs)) s1 =
             ((if keys_stack s1 = target s1 then xs else []), Inr s2)"
    "keys_stack s2 = keys_stack s1" "data_stack s2 = data_stack s1" "target s2 = target s1"
    "vs \<noteq> [] \<longrightarrow> yield_flag s2 = (keys_stack s1 \<noteq> target s1)"
    "vs = [] \<longrightarrow> s2 = s1"
    "store s2 = (store s1)[a := PList ((xs0 @ [x]) @ xs)] @ e2" "length xs = length vs"
    "denotes_all (length (store s1)) e2 xs (map last_wins vs)"
    by blast
  have loop: "json_generator_loop (concat (map events_of (v # vs))) s =
      ((if keys_stack s = target s then x # xs else []), Inr s2)"
    using loop_append[OF s1(1) s2(1)] s1(2,4) by simp
  have heap: "store s2 = (store s)[a := PList (xs0 @ x # xs)] @ e1 @ e2"
    using s2(7) st1 a by (simp add: list_update_append1)
  have "length (store s1) = length (store s) + length e1" using st1 by simp
  with s2(9) s1(7) have den: "denotes_all (length (store s)) (e1 @ e2) (x # xs) (map last_wins (v # vs))"
    by (simp add: denotes_all_Cons)
  have flag: "yield_flag s2 = (keys_stack s \<noteq> target s)"
    using s2(5,6) s1(2,4,5) by (cases "vs = []") auto
  show ?case
    using loop s1(2,3,4) s2(2,3,4,8) heap den flag
    by (intro exI[of _ s2] exI[of _ "x # xs"] exI[of _ "e1 @ e2"]) simp
qed

lemma stream_members:
  assumes IH: "\<And>kv s a. kv \<in> set kvs \<Longrightarrow> top_at s a \<Longrightarrow>
                 length (target s) \<le> length (keys_stack s) \<Longrightarrow> streamed (snd kv) s a"
    and "top_at s a" "store s ! a = PDict d0" "length (target s) < length (keys_stack s)"
  shows "\<exists>s' kxs ext.
           json_generator_loop (concat (map (\<lambda>kv. map_key (fst kv) # events_of (snd kv)) kvs)) s =
             ([], Inr s') \<and>
           butlast (keys_stack s') = butlast (keys_stack s) \<and> keys_stack s' \<noteq> [] \<and>
           data_stack s' = data_stack s \<and> target s' = target s \<and>
           store s' = (store s)[a := PDict (foldl (\<lambda>d kx. AList.update (fst kx) (snd kx) d) d0 kxs)] @ ext \<and>
           map fst kxs = map fst kvs \<and>
           denotes_all (length (store s)) ext (map snd kxs) (map (\<lambda>kv. last_wins (snd kv)) kvs)"
  using assms
proof (induction kvs arbitrary: s d0)
  case Nil
  have "(store s)[a := PDict d0] = store s"
    using Nil.prems by (metis list_update_id)
  moreover have "keys_stack s \<noteq> []" using Nil.prems(2) by (simp add: top_at_def)
  ultimately show ?case by (auto simp: denotes_all_Nil intro!: exI[of _ s] exI[of _ "[]"])
next
  case (Cons kv kvs)
  have a: "a < length (store s)" and ks: "keys_stack s \<noteq> []"
    using Cons.prems(2) by (simp_all add: top_at_def)
  define sk where "sk = s\<lparr>keys_stack := butlast (keys_stack s) @ [fst kv]\<rparr>"
  have stepk: "json_generator_step (map_key (fst kv)) s = Inr (sk, None)"
    unfolding sk_def using ks Cons.prems(4) by (rule gen_step_map_key)
  have lenk: "length (keys_stack sk) = length (keys_stack s)"
    using ks by (simp add: sk_def)
  have topk: "top_at sk a" using Cons.prems(2) by (simp add: top_at_def sk_def)
  have deepk: "length (target sk) < length (keys_stack sk)"
    using Cons.prems(4) lenk by (simp add: sk_def)
  then have neqk: "keys_stack sk \<noteq> target sk" by auto
  have "streamed (snd kv) sk a" using Cons.prems(1) topk deepk by simp
  then obtain s1 x e1 where s1:
    "json_generator_loop (events_of (snd kv)) sk = ((if keys_stack sk = target sk then [x] else []), Inr s1)"
    "keys_stack s1 = keys_stack sk" "data_stack s1 = data_stack sk" "target s1 = target sk"
    "yield_flag s1 = (keys_stack sk \<noteq> target sk)"
    "store s1 = linked a (last (keys_stack sk)) x (store sk) @ e1"
    "denotes_all (length (store sk)) e1 [x] [last_wins (snd kv)]"
    by (rule streamedD)
  have st1: "store s1 = (store s)[a := PDict (AList.update (fst kv) x d0)] @ e1"
    using s1(6) a Cons.prems(3) by (simp add: linked_dict sk_def)
  have top1: "top_at s1 a" using topk s1(2,3) st1 a by (simp add: top_at_def)
  have at1: "store s1 ! a = PDict (AList.update (fst kv) x d0)" using st1 a by (simp add: nth_append)
  have len1: "length (target s1) < length (keys_stack s1)" using deepk s1(2,4) by simp
  have "\<exists>s' kxs ext.
           json_generator_loop (concat (map (\<lambda>kv. map_key (fst kv) # events_of (snd kv)) kvs)) s1 =
             ([], Inr s') \<and>
           butlast (keys_stack s') = butlast (keys_stack s1) \<and> keys_stack s' \<noteq> [] \<and>
           data_stack s' = data_stack s1 \<and> target s' = target s1 \<and>
           store s' = (store s1)[a := PDict (foldl (\<lambda>d kx. AList.update (fst kx) (snd kx) d) (AList.update (fst kv) x d0) kxs)] @ ext \<and>
           map fst kxs = map fst kvs \<and>
           denotes_all (length (store s1)) ext (map snd kxs) (map (\<lambda>kv. last_wins (snd kv)) kvs)"
    using Cons.prems(1) top1 at1 len1 by (intro Cons.IH) simp_all
  then obtain s2 kxs e2 where s2:
    "json_generator_loop (concat (map (\<lambda>kv. map_key (fst kv) # events_of (snd kv)) kvs)) s1 = ([], Inr s2)"
    "butlast (keys_stack s2) = butlast (keys_stack s1)" "keys_stack s2 \<noteq> []"
    "data_stack s2 = data_stack s1" "target s2 = target s1"
    "store s2 = (store s1)[a := PDict (foldl (\<lambda>d kx. AList.update (fst kx) (snd kx) d) (AList.update (fst kv) x d0) kxs)] @ e2"
    "map fst kxs = map fst kvs"
    "denotes_all (length (store s1)) e2 (map snd kxs) (map (\<lambda>kv. last_wins (snd kv)) kvs)"
    by blast
  have "json_generator_loop (events_of (snd kv) @ concat (map (\<lambda>kv. map_key (fst kv) # events_of (snd kv)) kvs)) sk
      = ([] @ [], Inr s2)"
    using s1(1) neqk s2(1) by (intro loop_append[where ?s1.0 = s1]) simp_all
  then have loop: "json_generator_loop (concat (map (\<lambda>kv. map_key (fst kv) # events_of (snd kv)) (kv # kvs))) s
      = ([], Inr s2)"
    using loop_Cons[OF stepk] by simp
  have heap: "store s2 = (store s)[a := PDict (foldl (\<lambda>d kx. AList.update (fst kx) (snd kx) d) d0 ((fst kv, x) # kxs))] @ e1 @ e2"
    using s2(6) st1 a by (simp add: list_update_append1)
  have "length (store s1) = length (store s) + length e1" using st1 by simp
  with s2(8) s1(7) have den: "denotes_all (length (store s)) (e1 @ e2) (map snd ((fst kv, x) # kxs))
      (map (\<lambda>kv. last_wins (snd kv)) (kv # kvs))"
    by (simp add: denotes_all_Cons sk_def)
  have keys: "butlast (keys_stack s2) = butlast (keys_stack s)"
    using s2(2) s1(2) by (simp add: sk_def)
  show ?case
    using loop keys s2(3,4,5,7) s1(3,4) heap den
    by (intro exI[of _ s2] exI[of _ "(fst kv, x) # kxs"] exI[of _ "e1 @ e2"]) (simp add: sk_def)
qed

lemma streamed_scalar:
  assumes "top_at s a" "is_scalar ev" "events_of v = [ev]" "reify 0 [] (event_value ev) = Some (last_wins v)"
  shows "streamed v s a"
proof -
  let ?s' = "s\<lparr>store := linked a (last (keys_stack s)) (event_value ev) (store s),
             yield_flag := (keys_stack s \<noteq> target s)\<rparr>"
  have "json_generator_loop (events_of v) s =
      ((if keys_stack s = target s then [event_value ev] else []), Inr ?s')"
    using loop_single[OF gen_step_scalar[OF assms(2,1)]] assms(3) by simp
  moreover have "denotes_all (length (store s)) [] [event_value ev] [last_wins v]"
    using assms(2,4) by (rule denotes_scalar)
  ultimately show ?thesis
    unfolding streamed_def
    by (intro exI[of _ ?s'] exI[of _ "event_value ev"] exI[of _ "[]"]) simp
qed

lemma streamed_container:
  assumes top: "top_at s a" and len: "length (target s) \<le> length (keys_stack s)"
    and ev: "is_start ev" "is_end ev'"
    and evs: "events_of v = ev # body @ [ev']"
    and inner: "\<And>s1. top_at s1 (length (store s)) \<Longrightarrow> store s1 ! length (store s) = classmap ev \<Longrightarrow>
        length (store s1) = Suc (length (store s)) \<Longrightarrow>
        length (target s1) < length (keys_stack s1) \<Longrightarrow>
        \<exists>s2 obj ext. json_generator_loop body s1 = ([], Inr s2) \<and>
          butlast (keys_stack s2) = butlast (keys_stack s1) \<and> keys_stack s2 \<noteq> [] \<and>
          data_stack s2 = data_stack s1 \<and> target s2 = target s1 \<and>
          store s2 = (store s1)[length (store s) := obj] @ ext \<and>
          denotes_all (length (store s)) (obj # ext) [PRef (length (store s))] [last_wins v]"
  shows "streamed v s a"
proof -
  define n where "n = length (store s)"
  define s1 where "s1 = s\<lparr>store := linked a (last (keys_stack s)) (PRef n) (store s) @ [classmap ev],
             data_stack := data_stack s @ [PRef n], keys_stack := keys_stack s @ [''item'']\<rparr>"
  have step1: "json_generator_step ev s = Inr (s1, None)"
    unfolding s1_def n_def using ev(1) top len by (rule gen_step_start)
  have "top_at s1 n" "store s1 ! n = classmap ev" "length (store s1) = Suc n"
    "length (target s1) < length (keys_stack s1)"
    using len by (simp_all add: s1_def top_at_def n_def nth_append)
  then obtain s2 obj ext where s2: "json_generator_loop body s1 = ([], Inr s2)"
    "butlast (keys_stack s2) = butlast (keys_stack s1)" "keys_stack s2 \<noteq> []"
    "data_stack s2 = data_stack s1" "target s2 = target s1"
    "store s2 = (store s1)[n := obj] @ ext"
    "denotes_all n (obj # ext) [PRef n] [last_wins v]"
    using inner[of s1] unfolding n_def by blast
  define s3 where "s3 = s2\<lparr>keys_stack := butlast (keys_stack s2), data_stack := butlast (data_stack s2),
             yield_flag := (butlast (keys_stack s2) \<noteq> target s2)\<rparr>"
  have ds2: "data_stack s2 \<noteq> []" using s2(4) by (simp add: s1_def)
  have step3: "json_generator_step ev' s2 =
     Inr (s3, if butlast (keys_stack s2) = target s2 then Some (last (data_stack s2)) else None)"
    unfolding s3_def using ev(2) s2(3) ds2 by (rule gen_step_end)
  have k: "butlast (keys_stack s2) = keys_stack s" "target s2 = target s" "last (data_stack s2) = PRef n"
    "butlast (data_stack s2) = data_stack s"
    using s2(2,4,5) by (simp_all add: s1_def)
  have l3: "json_generator_loop [ev'] s2 = ((if keys_stack s = target s then [PRef n] else []), Inr s3)"
    using loop_single[OF step3] k by simp
  have "json_generator_loop (body @ [ev']) s1 = ([] @ (if keys_stack s = target s then [PRef n] else []), Inr s3)"
    using s2(1) l3 by (rule loop_append)
  then have loop: "json_generator_loop (events_of v) s = ((if keys_stack s = target s then [PRef n] else []), Inr s3)"
    using loop_Cons[OF step1] evs by simp
  have st: "store s3 = linked a (last (keys_stack s)) (PRef n) (store s) @ (obj # ext)"
    using s2(6) by (simp add: s3_def s1_def n_def list_update_append)
  show ?thesis
    unfolding streamed_def
    using loop st k s2(7)
    by (intro exI[of _ s3] exI[of _ "PRef n"] exI[of _ "obj # ext"]) (simp add: s3_def n_def)
qed

lemma streamed_all:
  "top_at s a \<Longrightarrow> length (target s) \<le> length (keys_stack s) \<Longrightarrow> streamed v s a"
proof (induction v arbitrary: s a)
  case JNull
  then show ?case by (intro streamed_scalar[where ev = null_ev]) simp_all
next
  case (JBool x)
  then show ?case by (intro streamed_scalar[where ev = "boolean x"]) simp_all
next
  case (JNum x)
  then show ?case by (intro streamed_scalar[where ev = "number x"]) simp_all
next
  case (JStr x)
  then show ?case by (intro streamed_scalar[where ev = "string_ev x"]) simp_all
next
  case (JArr vs)
  show ?case
  proof (rule streamed_container[OF JArr.prems, where ev = start_array and ev' = end_array
        and body = "concat (map events_of vs)"])
    fix s1 :: ijsondict
    assume s1: "top_at s1 (length (store s))" "store s1 ! length (store s) = classmap start_array"
      "length (store s1) = Suc (length (store s))" "length (target s1) < length (keys_stack s1)"
    then have neq: "keys_stack s1 \<noteq> target s1" by auto
    have "\<exists>s' xs ext.
           json_generator_loop (concat (map events_of vs)) s1 =
             ((if keys_stack s1 = target s1 then xs else []), Inr s') \<and>
           keys_stack s' = keys_stack s1 \<and> data_stack s' = data_stack s1 \<and> target s' = target s1 \<and>
           (vs \<noteq> [] \<longrightarrow> yield_flag s' = (keys_stack s1 \<noteq> target s1)) \<and>
           (vs = [] \<longrightarrow> s' = s1) \<and>
           store s' = (store s1)[length (store s) := PList ([] @ xs)] @ ext \<and> length xs = length vs \<and>
           denotes_all (length (store s1)) ext xs (map last_wins vs)"
      using s1 JArr.IH by (intro stream_elements) simp_all
    then obtain s2 xs ext where s2:
      "json_generator_loop (concat (map events_of vs)) s1 = ([], Inr s2)"
      "keys_stack s2 = keys_stack s1" "data_stack s2 = data_stack s1" "target s2 = target s1"
      "store s2 = (store s1)[length (store s) := PList xs] @ ext"
      "denotes_all (Suc (length (store s))) ext xs (map last_wins vs)"
      using neq s1(3) by auto
    have "denotes_all (length (store s)) (PList xs # ext) [PRef (length (store s))] [last_wins (JArr vs)]"
      using s2(6) by (simp add: denotes_arr)
    moreover have "keys_stack s2 \<noteq> []" using s2(2) s1(1) by (simp add: top_at_def)
    ultimately show "\<exists>s2 obj ext. json_generator_loop (concat (map events_of vs)) s1 = ([], Inr s2) \<and>
          butlast (keys_stack s2) = butlast (keys_stack s1) \<and> keys_stack s2 \<noteq> [] \<and>
          data_stack s2 = data_stack s1 \<and> target s2 = target s1 \<and>
          store s2 = (store s1)[length (store s) := obj] @ ext \<and>
          denotes_all (length (store s)) (obj # ext) [PRef (length (store s))] [last_wins (JArr vs)]"
      using s2 by (intro exI[of _ s2] exI[of _ "PList xs"] exI[of _ ext]) simp
  qed simp_all
next
  case (JObj kvs)
  have IH: "\<And>kv s a. kv \<in> set kvs \<Longrightarrow> top_at s a \<Longrightarrow>
                 length (target s) \<le> length (keys_stack s) \<Longrightarrow> streamed (snd kv) s a"
  proof -
    fix kv and s :: ijsondict and a
    assume "kv \<in> set kvs" "top_at s a" "length (target s) \<le> length (keys_stack s)"
    moreover have "snd kv \<in> Basic_BNFs.snds kv" by (cases kv) simp
    ultimately show "streamed (snd kv) s a" using JObj.IH by blast
  qed
  show ?case
  proof (rule streamed_container[OF JObj.prems, where ev = start_map and ev' = end_map
        and body = "concat (map (\<lambda>kv. map_key (fst kv) # events_of (snd kv)) kvs)"])
    fix s1 :: ijsondict
    assume s1: "top_at s1 (length (store s))" "store s1 ! length (store s) = classmap start_map"
      "length (store s1) = Suc (length (store s))" "length (target s1) < length (keys_stack s1)"
    have "\<exists>s' kxs ext.
           json_generator_loop (concat (map (\<lambda>kv. map_key (fst kv) # events_of (snd kv)) kvs)) s1 =
             ([], Inr s') \<and>
           butlast (keys_stack s') = butlast (keys_stack s1) \<and> keys_stack s' \<noteq> [] \<and>
           data_stack s' = data_stack s1 \<and> target s' = target s1 \<and>
           store s' = (store s1)[length (store s) := PDict (foldl (\<lambda>d kx. AList.update (fst kx) (snd kx) d) [] kxs)] @ ext \<and>
           map fst kxs = map fst kvs \<and>
           denotes_all (length (store s1)) ext (map snd kxs) (map (\<lambda>kv. last_wins (snd kv)) kvs)"
      using s1 IH by (intro stream_members) simp_all
    then obtain s2 kxs ext where s2:
      "json_generator_loop (concat (map (\<lambda>kv. map_key (fst kv) # events_of (snd kv)) kvs)) s1 = ([], Inr s2)"
      "butlast (keys_stack s2) = butlast (keys_stack s1)" "keys_stack s2 \<noteq> []"
      "data_stack s2 = data_stack s1" "target s2 = target s1"
      "store s2 = (store s1)[length (store s) := PDict (foldl (\<lambda>d kx. AList.update (fst kx) (snd kx) d) [] kxs)] @ ext"
      "map fst kxs = map fst kvs"
      "denotes_all (Suc (length (store s))) ext (map snd kxs) (map (\<lambda>kv. last_wins (snd kv)) kvs)"
      using s1(3) by auto
    have "denotes_all (length (store s)) (PDict (foldl (\<lambda>d kx. AList.update (fst kx) (snd kx) d) [] kxs) # ext)
        [PRef (length (store s))] [last_wins (JObj kvs)]"
      using s2(7,8) by (simp add: denotes_obj)
    then show "\<exists>s2 obj ext. json_generator_loop (concat (map (\<lambda>kv. map_key (fst kv) # events_of (snd kv)) kvs)) s1 = ([], Inr s2) \<and>
          butlast (keys_stack s2) = butlast (keys_stack s1) \<and> keys_stack s2 \<noteq> [] \<and>
          data_stack s2 = data_stack s1 \<and> target s2 = target s1 \<and>
          store s2 = (store s1)[length (store s) := obj] @ ext \<and>
          denotes_all (length (store s)) (obj # ext) [PRef (length (store s))] [last_wins (JObj kvs)]"
      using s2 by (intro exI[of _ s2] exI[of _ "PDict (foldl (\<lambda>d kx. AList.update (fst kx) (snd kx) d) [] kxs)"] exI[of _ ext]) simp
  qed simp_all
qed

lemma denotes_all_reify:
  assumes "denotes_all n ext xs js" "h = hp @ ext" "length hp = n"
  shows "map (reify (length h) h) xs = map Some js"
proof -
  from assms(1,3) have "list_all2 (\<lambda>x j. reify (length ext) (hp @ ext @ []) x = Some j) xs js"
    unfolding denotes_all_def by blast
  then have "list_all2 (\<lambda>x j. reify (length ext + length hp) h x = Some j) xs js"
    unfolding assms(2) by (rule list_all2_mono) (use reify_mono in simp)
  then have "list_all2 (\<lambda>x j. reify (length h) h x = Some j) xs js"
    by (simp add: assms(2) add.commute)
  then show ?thesis
    by (induction rule: list_all2_induct) simp_all
qed

lemma generator_streams_items:
  assumes "keys_stack s = target s" "keys_stack s \<noteq> []" "data_stack s \<noteq> []"
  shows "\<exists>xs ext s'.
           json_generator (concat (map events_of vs)) s = (xs, Inr s') \<and>
           length xs = length vs \<and>
           store s' = store s @ PList xs # ext \<and>
           keys_stack s' = keys_stack s \<and>
           data_stack s' = butlast (data_stack s) @ [PRef (length (store s))] \<and>
           target s' = target s \<and>
           denotes_all (Suc (length (store s))) ext xs (map last_wins vs)"
proof -
  define n where "n = length (store s)"
  define s0 where "s0 = s\<lparr>store := store s @ [PList []],
                  data_stack := butlast (data_stack s) @ [PRef n], yield_flag := False\<rparr>"
  have start: "json_generator_start s = Inr s0"
    using assms(3) by (simp add: json_generator_start_def s0_def n_def)
  have top: "top_at s0 n" using assms(2) by (simp add: top_at_def s0_def n_def)
  have "\<exists>s' xs ext.
           json_generator_loop (concat (map events_of vs)) s0 =
             ((if keys_stack s0 = target s0 then xs else []), Inr s') \<and>
           keys_stack s' = keys_stack s0 \<and> data_stack s' = data_stack s0 \<and> target s' = target s0 \<and>
           (vs \<noteq> [] \<longrightarrow> yield_flag s' = (keys_stack s0 \<noteq> target s0)) \<and>
           (vs = [] \<longrightarrow> s' = s0) \<and>
           store s' = (store s0)[n := PList ([] @ xs)] @ ext \<and> length xs = length vs \<and>
           denotes_all (length (store s0)) ext xs (map last_wins vs)"
    using top assms(1) by (intro stream_elements streamed_all) (simp_all add: s0_def n_def)
  then obtain s' xs ext where s':
    "json_generator_loop (concat (map events_of vs)) s0 = (xs, Inr s')"
    "keys_stack s' = keys_stack s" "data_stack s' = butlast (data_stack s) @ [PRef n]"
    "target s' = target s"
    "store s' = (store s @ [PList []])[n := PList xs] @ ext" "length xs = length vs"
    "denotes_all (Suc n) ext xs (map last_wins vs)"
    using assms(1) by (auto simp: s0_def n_def)
  from s'(5) have "store s' = store s @ PList xs # ext" by (simp add: n_def)
  with s' start show ?thesis
    unfolding n_def by (auto simp: json_generator_def)
qed

lemma loop_streams_items:
  assumes "keys_stack s = target s" "top_at s a" "store s ! a = PList xs0"
  shows "\<exists>xs ext s'.
           json_generator_loop (concat (map events_of vs)) s = (xs, Inr s') \<and>
           length xs = length vs \<and>
           store s' = (store s)[a := PList (xs0 @ xs)] @ ext \<and>
           keys_stack s' = keys_stack s \<and> data_stack s' = data_stack s \<and> target s' = target s \<and>
           denotes_all (length (store s)) ext xs (map last_wins vs)"
proof -
  have "\<exists>s' xs ext.
           json_generator_loop (concat (map events_of vs)) s =
             ((if keys_stack s = target s then xs else []), Inr s') \<and>
           keys_stack s' = keys_stack s \<and> data_stack s' = data_stack s \<and> target s' = target s \<and>
           (vs \<noteq> [] \<longrightarrow> yield_flag s' = (keys_stack s \<noteq> target s)) \<and>
           (vs = [] \<longrightarrow> s' = s) \<and>
           store s' = (store s)[a := PList (xs0 @ xs)] @ ext \<and> length xs = length vs \<and>
           denotes_all (length (store s)) ext xs (map last_wins vs)"
    using assms by (intro stream_elements streamed_all) simp_all
  then show ?thesis using assms(1) by auto
qed

lemma generator_streams_array:
  assumes "keys_stack s = target s" "keys_stack s \<noteq> []" "data_stack s \<noteq> []"
  shows "\<exists>xs ext s'.
           json_generator (concat (map events_of vs) @ [end_array]) s = (xs, Inr s') \<and>
           store s' = store s @ ext \<and>
           keys_stack s' = butlast (keys_stack s) \<and> data_stack s' = butlast (data_stack s)"
proof -
  obtain xs ext s1 where g: "json_generator (concat (map events_of vs)) s = (xs, Inr s1)"
    "store s1 = store s @ PList xs # ext" "keys_stack s1 = keys_stack s"
    "data_stack s1 = butlast (data_stack s) @ [PRef (length (store s))]" "target s1 = target s"
    using generator_streams_items[OF assms] by blast
  obtain s0 where s0: "json_generator_start s = Inr s0" "json_generator_loop (concat (map events_of vs)) s0 = (xs, Inr s1)"
    using g(1) by (auto simp: json_generator_def split: sum.splits)
  define s2 where "s2 = s1\<lparr>keys_stack := butlast (keys_stack s1), data_stack := butlast (data_stack s1),
             yield_flag := (butlast (keys_stack s1) \<noteq> target s1)\<rparr>"
  have "length (butlast (keys_stack s1)) \<noteq> length (target s1)"
    using g(3,5) assms(1,2) by (cases "target s") simp_all
  then have neq: "butlast (keys_stack s1) \<noteq> target s1" by (rule neq_by_length)
  have "json_generator_step end_array s1 =
     Inr (s2, if butlast (keys_stack s1) = target s1 then Some (last (data_stack s1)) else None)"
    unfolding s2_def using g(3,4) assms(2) by (intro gen_step_end) simp_all
  then have "json_generator_loop [end_array] s1 = ([], Inr s2)"
    using neq by simp
  with s0(2) have "json_generator_loop (concat (map events_of vs) @ [end_array]) s0 = (xs @ [], Inr s2)"
    by (rule loop_append)
  with s0(1) have "json_generator (concat (map events_of vs) @ [end_array]) s = (xs, Inr s2)"
    by (simp add: json_generator_def)
  moreover have "store s2 = store s @ (PList xs # ext)" "keys_stack s2 = butlast (keys_stack s)"
    "data_stack s2 = butlast (data_stack s)"
    using g by (simp_all add: s2_def)
  ultimately show ?thesis by blast
qed

subsection \<open>The placeholder list\<close>

text \<open>
  C5, as the spec states it, fails.  With the target \<^verbatim>\<open>"a.item"\<close> on the events of
  \<^verbatim>\<open>{"a": [1, 2]}\<close>, after the generator has yielded 1 and 2 the list it installed on top of
  the data stack (address 1 of the store) holds both of them.
\<close>

theorem placeholder_accumulates_items:
  "start_parse [start_map, map_key ''a'', start_array, number 1, number 2, end_array, end_map]
     (ijsondict_init (Inl ''a.item'')) =
     Inr (\<lparr>keys_stack = [''a'', ''item''], data_stack = [PRef 0, PGen], target = [''a'', ''item''],
           store = [PDict [(''a'', PGen)]], first = False, yield_flag = False\<rparr>,
          [number 1, number 2, end_array, end_map], True) \<and>
   json_generator [number 1, number 2]
     \<lparr>keys_stack = [''a'', ''item''], data_stack = [PRef 0, PGen], target = [''a'', ''item''],
      store = [PDict [(''a'', PGen)]], first = False, yield_flag = False\<rparr> =
     ([PNum 1, PNum 2],
      Inr \<lparr>keys_stack = [''a'', ''item''], data_stack = [PRef 0, PRef 1],
           target = [''a'', ''item''], store = [PDict [(''a'', PGen)], PList [PNum 1, PNum 2]],
           first = False, yield_flag = False\<rparr>)"
  by code_simp

text \<open>
  C5, amended.  Whenever, in the loop of the generator, the keys stack is the target path and
  the container on top of the data stack is a list, the generator reading the events of any
  number of items, scalar or composite, yields one object per item, the item as a tree, and
  appends every one of them to that list: what is forwarded is also kept, and the list grows
  by one entry per item.  When the generator is started with the keys stack equal to the
  target path (the array at which \<^verbatim>\<open>_start_parse\<close> stopped), that list is the one the
  generator installs on top of the data stack by \<^verbatim>\<open>data_stack[-1] = []\<close>: a new object of the
  store, and while its items are read no object that was in the store before changes (the
  parent still holds the generator object).
\<close>

theorem streamed_items_forwarded_and_kept:
  "(keys_stack s = target s \<and> top_at s a \<and> store s ! a = PList xs0 \<longrightarrow>
      (\<exists>xs ext s'.
         json_generator_loop (concat (map events_of vs)) s = (xs, Inr s') \<and>
         map (reify (length (store s')) (store s')) xs = map (\<lambda>v. Some (last_wins v)) vs \<and>
         store s' = (store s)[a := PList (xs0 @ xs)] @ ext)) \<and>
   (keys_stack t = target t \<and> keys_stack t \<noteq> [] \<and> data_stack t \<noteq> [] \<longrightarrow>
      (\<exists>xs ext t'.
         json_generator (concat (map events_of ws)) t = (xs, Inr t') \<and>
         map (reify (length (store t')) (store t')) xs = map (\<lambda>v. Some (last_wins v)) ws \<and>
         store t' = store t @ PList xs # ext \<and>
         last (data_stack t') = PRef (length (store t))))"
proof (intro conjI impI)
  assume a: "keys_stack s = target s \<and> top_at s a \<and> store s ! a = PList xs0"
  then obtain xs ext s' where g: "json_generator_loop (concat (map events_of vs)) s = (xs, Inr s')"
    "store s' = (store s)[a := PList (xs0 @ xs)] @ ext"
    "denotes_all (length (store s)) ext xs (map last_wins vs)"
    using loop_streams_items[of s a xs0 vs] by blast
  have "map (reify (length (store s')) (store s')) xs = map Some (map last_wins vs)"
    using g(3) by (rule denotes_all_reify[where hp = "(store s)[a := PList (xs0 @ xs)]"]) (simp_all add: g(2))
  with g show "\<exists>xs ext s'.
         json_generator_loop (concat (map events_of vs)) s = (xs, Inr s') \<and>
         map (reify (length (store s')) (store s')) xs = map (\<lambda>v. Some (last_wins v)) vs \<and>
         store s' = (store s)[a := PList (xs0 @ xs)] @ ext"
    by (auto simp: comp_def)
next
  assume a: "keys_stack t = target t \<and> keys_stack t \<noteq> [] \<and> data_stack t \<noteq> []"
  then obtain xs ext t' where g: "json_generator (concat (map events_of ws)) t = (xs, Inr t')"
    "store t' = store t @ PList xs # ext"
    "data_stack t' = butlast (data_stack t) @ [PRef (length (store t))]"
    "denotes_all (Suc (length (store t))) ext xs (map last_wins ws)"
    using generator_streams_items[of t ws] by blast
  have "map (reify (length (store t')) (store t')) xs = map Some (map last_wins ws)"
    using g(4) by (rule denotes_all_reify[where hp = "store t @ [PList xs]"]) (simp_all add: g(2))
  with g show "\<exists>xs ext t'.
         json_generator (concat (map events_of ws)) t = (xs, Inr t') \<and>
         map (reify (length (store t')) (store t')) xs = map (\<lambda>v. Some (last_wins v)) ws \<and>
         store t' = store t @ PList xs # ext \<and>
         last (data_stack t') = PRef (length (store t))"
    by (auto simp: comp_def)
qed

theorem streamed_items_forwarded_and_kept_witness:
  "top_at \<lparr>keys_stack = [''item'', ''data'', ''item''], data_stack = [PRef 0, PRef 3, PRef 4],
           target = [''item'', ''data'', ''item''],
           store = [PDict [(''item'', PRef 3)], PDict [(''data'', PGen)], PList [PNum 1],
                    PDict [(''data'', PRef 4)], PList []],
           first = False, yield_flag = False\<rparr> 4 \<and>
   (\<exists>xs ext s'.
      json_generator_loop (concat (map events_of [JNum 2, JArr [JNull]]))
        \<lparr>keys_stack = [''item'', ''data'', ''item''], data_stack = [PRef 0, PRef 3, PRef 4],
           target = [''item'', ''data'', ''item''],
           store = [PDict [(''item'', PRef 3)], PDict [(''data'', PGen)], PList [PNum 1],
                    PDict [(''data'', PRef 4)], PList []],
           first = False, yield_flag = False\<rparr> = (xs, Inr s') \<and>
      map (reify (length (store s')) (store s')) xs = [Some (JNum 2), Some (JArr [JNull])] \<and>
      store s' = [PDict [(''item'', PRef 3)], PDict [(''data'', PGen)], PList [PNum 1],
                  PDict [(''data'', PRef 4)], PList xs] @ ext) \<and>
   (\<exists>xs ext t'.
     json_generator (concat (map events_of [JNum 1, JArr [JNum 5], JObj [(''k'', JNull)]]))
       \<lparr>keys_stack = [''a'', ''item''], data_stack = [PRef 0, PGen], target = [''a'', ''item''],
        store = [PDict [(''a'', PGen)]], first = False, yield_flag = False\<rparr> = (xs, Inr t') \<and>
     map (reify (length (store t')) (store t')) xs =
       [Some (JNum 1), Some (JArr [JNum 5]), Some (JObj [(''k'', JNull)])] \<and>
     store t' = [PDict [(''a'', PGen)]] @ PList xs # ext \<and>
     last (data_stack t') = PRef 1)"
  using streamed_items_forwarded_and_kept
    [where s = "\<lparr>keys_stack = [''item'', ''data'', ''item''], data_stack = [PRef 0, PRef 3, PRef 4],
           target = [''item'', ''data'', ''item''],
           store = [PDict [(''item'', PRef 3)], PDict [(''data'', PGen)], PList [PNum 1],
                    PDict [(''data'', PRef 4)], PList []],
           first = False, yield_flag = False\<rparr>"
       and a = 4 and ?xs0.0 = "[]" and vs = "[JNum 2, JArr [JNull]]"
       and t = "\<lparr>keys_stack = [''a'', ''item''], data_stack = [PRef 0, PGen], target = [''a'', ''item''],
          store = [PDict [(''a'', PGen)]], first = False, yield_flag = False\<rparr>"
       and ws = "[JNum 1, JArr [JNum 5], JObj [(''k'', JNull)]]"]
  by (simp add: top_at_def)

subsection \<open>The generator object in the skeleton\<close>

lemma link_frame:
  "link d k v h = Inr h' \<Longrightarrow> a < length h \<Longrightarrow> d \<noteq> PRef a \<Longrightarrow> h' ! a = h ! a \<and> length h' = length h"
  by (auto simp: link_def split: pyval.splits if_splits pyobj.splits)

lemma push_container_frame:
  assumes "push_container this s = Inr s'" "a < length (store s)"
    "data_stack s = [] \<or> last (data_stack s) \<noteq> PRef a"
  shows "store s' ! a = store s ! a \<and> length (store s) \<le> length (store s')"
  using assms
  by (auto simp: push_container_def split: sum.splits if_splits dest: link_frame)

lemma store_scalar_frame:
  assumes "store_scalar v s = Inr s'" "a < length (store s)"
    "data_stack s = [] \<or> last (data_stack s) \<noteq> PRef a"
  shows "store s' ! a = store s ! a \<and> length (store s) \<le> length (store s')"
  using assms
  by (auto simp: store_scalar_def split: sum.splits if_splits dest: link_frame)

lemma generator_branch_frame:
  assumes "generator_branch ev s = Inr (s', v)" "a < length (store s)"
    "data_stack s = [] \<or> last (data_stack s) \<noteq> PRef a"
  shows "store s' ! a = store s ! a"
proof (cases "is_start ev")
  case True
  with assms(1) obtain s1 where
    p: "push_container (PRef (length (store s))) (s\<lparr>store := store s @ [classmap ev]\<rparr>) = Inr s1" "s' = s1"
    by (auto simp: generator_branch_def split: sum.splits)
  from p(1) have "store s1 ! a = store (s\<lparr>store := store s @ [classmap ev]\<rparr>) ! a \<and>
     length (store (s\<lparr>store := store s @ [classmap ev]\<rparr>)) \<le> length (store s1)"
    by (rule push_container_frame) (use assms(2,3) in auto)
  with p(2) assms(2) show ?thesis by (simp add: nth_append)
next
  case False
  show ?thesis
  proof (cases "is_end ev \<or> (\<exists>k. ev = map_key k)")
    case True
    with False assms(1) show ?thesis
      by (auto simp: generator_branch_def split: if_splits)
  next
    case other: False
    with False assms(1)
    have "\<exists>s1. store_scalar (event_value ev) s = Inr s1 \<and> s' = s1\<lparr>yield_flag := True\<rparr>"
      by (cases ev) (simp_all add: generator_branch_def split: sum.splits)
    then show ?thesis using assms(2,3) by (auto dest: store_scalar_frame)
  qed
qed

lemma json_generator_step_frame:
  assumes "json_generator_step ev s = Inr (s', y)" "a < length (store s)"
    "data_stack s = [] \<or> last (data_stack s) \<noteq> PRef a"
  shows "store s' ! a = store s ! a"
proof -
  from assms(1) obtain s1 v where b: "generator_branch ev s = Inr (s1, v)"
    and s': "s' = s1 \<or> s' = s1\<lparr>yield_flag := False\<rparr>"
    by (auto simp: json_generator_step_def split: sum.splits if_splits)
  from b assms(2,3) have "store s1 ! a = store s ! a" by (rule generator_branch_frame)
  with s' show ?thesis by auto
qed

lemma start_parse_step_handoff:
  assumes "is_start ev" "keys_stack s = butlast (target s)" "keys_stack s \<noteq> []"
    "data_stack s \<noteq> []" "last (data_stack s) = PRef p" "p < length (store s)"
  shows "start_parse_step ev s =
     Inr (s\<lparr>store := (store s)[p := (case store s ! p of
                                        PDict d \<Rightarrow> PDict (AList.update (last (keys_stack s)) PGen d)
                                      | PList xs \<Rightarrow> PList (xs @ [PGen]))],
             data_stack := data_stack s @ [PGen],
             keys_stack := keys_stack s @ [''item'']\<rparr>, True)"
  using assms
  by (cases "store s ! p") (simp_all add: start_parse_step_def push_container_def link_def)

lemma gen_at_append: "gen_at h p k i \<Longrightarrow> gen_at (h @ e) p k i"
  by (auto simp: gen_at_def nth_append)

lemma link_keeps_gen:
  assumes "link d key v h = Inr h'" "gen_at h p k i"
    "\<not> (d = PRef p \<and> key = k \<and> is_dict (h ! p))"
  shows "gen_at h' p k i"
proof (cases "d = PRef p")
  case False
  with assms(1,2) have "h' ! p = h ! p \<and> length h' = length h"
    by (intro link_frame[of d key v h h' p]) (simp_all add: gen_at_def)
  with assms(2) show ?thesis by (simp add: gen_at_def)
next
  case True
  have p: "p < length h" using assms(2) by (simp add: gen_at_def)
  show ?thesis
  proof (cases "h ! p")
    case (PDict dd)
    with True assms(3) have "key \<noteq> k" by simp
    moreover from True p PDict assms(1) have "h' = h[p := PDict (AList.update key v dd)]"
      by (simp add: link_def)
    ultimately show ?thesis using assms(2) p PDict by (simp add: gen_at_def update_conv')
  next
    case (PList xs)
    with True p assms(1) have "h' = h[p := PList (xs @ [v])]" by (simp add: link_def)
    then show ?thesis using assms(2) p PList by (simp add: gen_at_def nth_append)
  qed
qed

lemma push_container_keeps_gen:
  assumes "push_container this s = Inr s'" "gen_at (store s) p k i"
    "\<not> (keys_stack s \<noteq> [] \<and> data_stack s \<noteq> [] \<and> last (data_stack s) = PRef p \<and>
        last (keys_stack s) = k \<and> is_dict (store s ! p))"
  shows "gen_at (store s') p k i"
proof (cases "keys_stack s = []")
  case True
  with assms(1,2) show ?thesis by (auto simp: push_container_def)
next
  case False
  with assms(1) obtain h where h: "data_stack s \<noteq> []"
    "link (last (data_stack s)) (last (keys_stack s)) this (store s) = Inr h" "store s' = h"
    by (auto simp: push_container_def split: if_splits sum.splits)
  from h(2) assms(2) have "gen_at h p k i"
    by (rule link_keeps_gen) (use assms(3) False h(1) in auto)
  with h(3) show ?thesis by simp
qed

lemma store_scalar_keeps_gen:
  assumes "store_scalar v s = Inr s'" "gen_at (store s) p k i"
    "\<not> (keys_stack s \<noteq> [] \<and> data_stack s \<noteq> [] \<and> last (data_stack s) = PRef p \<and>
        last (keys_stack s) = k \<and> is_dict (store s ! p))"
  shows "gen_at (store s') p k i"
proof -
  from assms(1) obtain h where h: "keys_stack s \<noteq> []" "data_stack s \<noteq> []"
    "link (last (data_stack s)) (last (keys_stack s)) v (store s) = Inr h" "store s' = h"
    by (auto simp: store_scalar_def split: if_splits sum.splits)
  from h(3) assms(2) have "gen_at h p k i"
    by (rule link_keeps_gen) (use assms(3) h(1,2) in auto)
  with h(4) show ?thesis by simp
qed

lemma generator_branch_keeps_gen:
  assumes "generator_branch ev s = Inr (s', v)" "gen_at (store s) p k i" "\<not> overwrites p k ev s"
  shows "gen_at (store s') p k i"
proof (cases "is_start ev")
  case True
  with assms(1) have
    pc: "push_container (PRef (length (store s))) (s\<lparr>store := store s @ [classmap ev]\<rparr>) = Inr s'"
    by (auto simp: generator_branch_def split: sum.splits)
  have p: "p < length (store s)" using assms(2) by (simp add: gen_at_def)
  from pc show ?thesis
  proof (rule push_container_keeps_gen)
    show "gen_at (store (s\<lparr>store := store s @ [classmap ev]\<rparr>)) p k i"
      using assms(2) by (simp add: gen_at_append)
    show "\<not> (keys_stack (s\<lparr>store := store s @ [classmap ev]\<rparr>) \<noteq> [] \<and>
        data_stack (s\<lparr>store := store s @ [classmap ev]\<rparr>) \<noteq> [] \<and>
        last (data_stack (s\<lparr>store := store s @ [classmap ev]\<rparr>)) = PRef p \<and>
        last (keys_stack (s\<lparr>store := store s @ [classmap ev]\<rparr>)) = k \<and>
        is_dict (store (s\<lparr>store := store s @ [classmap ev]\<rparr>) ! p))"
      using assms(3) True p by (simp add: overwrites_def nth_append)
  qed
next
  case False
  show ?thesis
  proof (cases "is_end ev \<or> (\<exists>k. ev = map_key k)")
    case True
    with False assms(1,2) show ?thesis
      by (auto simp: generator_branch_def split: if_splits)
  next
    case other: False
    with False have sc: "is_scalar ev" by (cases ev) simp_all
    from other False assms(1)
    have "\<exists>s1. store_scalar (event_value ev) s = Inr s1 \<and> s' = s1\<lparr>yield_flag := True\<rparr>"
      by (cases ev) (simp_all add: generator_branch_def split: sum.splits)
    then obtain s1 where s1: "store_scalar (event_value ev) s = Inr s1" "s' = s1\<lparr>yield_flag := True\<rparr>"
      by blast
    have p: "p < length (store s)" using assms(2) by (simp add: gen_at_def)
    from s1(1) assms(2) have "gen_at (store s1) p k i"
      by (rule store_scalar_keeps_gen) (use assms(3) sc p in \<open>simp add: overwrites_def\<close>)
    with s1(2) show ?thesis by simp
  qed
qed

lemma json_generator_step_keeps_gen:
  assumes "json_generator_step ev s = Inr (s', y)" "gen_at (store s) p k i" "\<not> overwrites p k ev s"
  shows "gen_at (store s') p k i"
proof -
  from assms(1) obtain s1 v where b: "generator_branch ev s = Inr (s1, v)"
    and s': "s' = s1 \<or> s' = s1\<lparr>yield_flag := False\<rparr>"
    by (auto simp: json_generator_step_def split: sum.splits if_splits)
  from b assms(2,3) have "gen_at (store s1) p k i" by (rule generator_branch_keeps_gen)
  with s' show ?thesis by auto
qed

lemma json_generator_loop_keeps_gen:
  "json_generator_loop evs s = (ys, Inr s') \<Longrightarrow> gen_at (store s) p k i \<Longrightarrow>
   no_overwrite p k evs s \<Longrightarrow> gen_at (store s') p k i"
proof (induction evs arbitrary: s ys)
  case Nil
  then show ?case by simp
next
  case (Cons ev evs)
  from Cons.prems(1) obtain s1 y ys1 where step: "json_generator_step ev s = Inr (s1, y)"
    and rest: "json_generator_loop evs s1 = (ys1, Inr s')"
    by (auto split: sum.splits prod.splits)
  from Cons.prems(3) step have no: "\<not> overwrites p k ev s" "no_overwrite p k evs s1" by simp_all
  from step Cons.prems(2) no(1) have "gen_at (store s1) p k i" by (rule json_generator_step_keeps_gen)
  with rest show ?case using no(2) by (rule Cons.IH)
qed

lemma json_generator_keeps_gen:
  assumes "json_generator evs s = (ys, Inr s')" "gen_at (store s) p k i" "never_overwritten p k evs s"
  shows "gen_at (store s') p k i"
proof -
  from assms(1) obtain s0 where s0: "json_generator_start s = Inr s0"
    "json_generator_loop evs s0 = (ys, Inr s')"
    by (auto simp: json_generator_def split: sum.splits)
  from s0(1) have "store s0 = store s @ [PList []]"
    by (auto simp: json_generator_start_def split: if_splits)
  with assms(2) have "gen_at (store s0) p k i" by (simp add: gen_at_append)
  with s0(2) show ?thesis
    by (rule json_generator_loop_keeps_gen) (use assms(3) s0(1) in \<open>simp add: never_overwritten_def\<close>)
qed

lemma link_keeps_kind:
  "link d key v h = Inr h' \<Longrightarrow> p < length h \<Longrightarrow> length h' = length h \<and> is_dict (h' ! p) = is_dict (h ! p)"
  by (auto simp: link_def nth_list_update split: pyval.splits if_splits pyobj.splits)

lemma json_generator_step_keeps_kind:
  assumes "json_generator_step ev s = Inr (s', y)" "p < length (store s)"
  shows "p < length (store s') \<and> is_dict (store s' ! p) = is_dict (store s ! p)"
proof -
  from assms(1) obtain s1 v where b: "generator_branch ev s = Inr (s1, v)"
    and s': "s' = s1 \<or> s' = s1\<lparr>yield_flag := False\<rparr>"
    by (auto simp: json_generator_step_def split: sum.splits if_splits)
  have "p < length (store s1) \<and> is_dict (store s1 ! p) = is_dict (store s ! p)"
  proof (cases "is_start ev")
    case True
    with b have
      pc: "push_container (PRef (length (store s))) (s\<lparr>store := store s @ [classmap ev]\<rparr>) = Inr s1"
      by (auto simp: generator_branch_def split: sum.splits)
    show ?thesis
    proof (cases "keys_stack s = []")
      case True
      with pc assms(2) show ?thesis by (auto simp: push_container_def nth_append)
    next
      case False
      with pc obtain h where
        "link (last (data_stack s)) (last (keys_stack s)) (PRef (length (store s))) (store s @ [classmap ev]) = Inr h"
        "store s1 = h"
        by (auto simp: push_container_def split: if_splits sum.splits)
      then show ?thesis using assms(2) link_keeps_kind[of _ _ _ "store s @ [classmap ev]" h p]
        by (simp add: nth_append)
    qed
  next
    case False
    show ?thesis
    proof (cases "is_end ev \<or> (\<exists>k. ev = map_key k)")
      case True
      with False b assms(2) show ?thesis
        by (auto simp: generator_branch_def split: if_splits)
    next
      case other: False
      from other False b
      have "\<exists>s2. store_scalar (event_value ev) s = Inr s2 \<and> s1 = s2\<lparr>yield_flag := True\<rparr>"
        by (cases ev) (simp_all add: generator_branch_def split: sum.splits)
      then obtain s2 h where "link (last (data_stack s)) (last (keys_stack s)) (event_value ev) (store s) = Inr h"
        "store s1 = h"
        by (auto simp: store_scalar_def split: if_splits sum.splits)
      then show ?thesis using assms(2) link_keeps_kind[of _ _ _ "store s" h p] by simp
    qed
  qed
  with s' show ?thesis by auto
qed

lemma list_parent_no_overwrite:
  "p < length (store s) \<Longrightarrow> \<not> is_dict (store s ! p) \<Longrightarrow> no_overwrite p k evs s"
proof (induction evs arbitrary: s)
  case Nil
  then show ?case by simp
next
  case (Cons ev evs)
  have "\<not> overwrites p k ev s" using Cons.prems(2) by (simp add: overwrites_def)
  moreover have "no_overwrite p k evs s1" if "json_generator_step ev s = Inr (s1, y)" for s1 y
    using json_generator_step_keeps_kind[OF that Cons.prems(1)] Cons.prems(2) Cons.IH[of s1] by simp
  ultimately show ?case by (auto split: sum.splits)
qed


lemma link_length: "link d key v h = Inr h' \<Longrightarrow> length h' = length h"
  by (auto simp: link_def split: pyval.splits if_splits pyobj.splits)

lemma push_container_store_length:
  "push_container this s = Inr s' \<Longrightarrow> length (store s') = length (store s)"
  by (auto simp: push_container_def split: sum.splits if_splits dest: link_length)

lemma store_scalar_store_length:
  "store_scalar v s = Inr s' \<Longrightarrow> length (store s') = length (store s)"
  by (auto simp: store_scalar_def split: sum.splits if_splits dest: link_length)

lemma start_parse_step_refs_valid:
  assumes "start_parse_step ev s = Inr (s', False)" "refs_valid s"
  shows "refs_valid s'"
proof (cases "is_start ev")
  case True
  show ?thesis
  proof (cases "first s")
    case f: True
    with True assms(1) have pc: "push_container (PRef 0) (s\<lparr>first := False\<rparr>) = Inr s'"
      by (auto simp: start_parse_step_def split: if_splits sum.splits)
    from pc have "length (store s') = length (store s)" "data_stack s' = data_stack s @ [PRef 0]"
      using push_container_store_length[OF pc] push_container_stacks[OF pc] by simp_all
    with assms(2) show ?thesis by (auto simp: refs_valid_def)
  next
    case f: False
    with True assms(1) have
      pc: "push_container (PRef (length (store s))) (s\<lparr>store := store s @ [classmap ev]\<rparr>) = Inr s'"
      by (auto simp: start_parse_step_def split: if_splits sum.splits)
    from pc have "length (store s') = Suc (length (store s))"
      "data_stack s' = data_stack s @ [PRef (length (store s))]"
      using push_container_store_length[OF pc] push_container_stacks[OF pc] by simp_all
    with assms(2) show ?thesis by (auto simp: refs_valid_def less_Suc_eq)
  qed
next
  case False
  show ?thesis
  proof (cases "is_end ev \<or> (\<exists>k. ev = map_key k)")
    case True
    with False assms(1) have "store s' = store s"
      "data_stack s' = data_stack s \<or> data_stack s' = butlast (data_stack s)"
      by (auto simp: start_parse_step_def split: if_splits)
    with assms(2) show ?thesis
      unfolding refs_valid_def by (metis in_set_butlastD)
  next
    case other: False
    with False assms(1) have sc: "store_scalar (event_value ev) s = Inr s'"
      by (cases ev) (simp_all add: start_parse_step_def split: sum.splits)
    from sc have "length (store s') = length (store s)" "data_stack s' = data_stack s"
      using store_scalar_store_length[OF sc] store_scalar_stacks[OF sc] by simp_all
    with assms(2) show ?thesis by (auto simp: refs_valid_def)
  qed
qed

lemma start_parse_step_break:
  assumes "start_parse_step ev s = Inr (s', True)" "refs_valid s"
    "length (keys_stack s) = length (data_stack s)"
  shows "data_stack s' = data_stack s @ [PGen] \<and> target s' = target s \<and>
     keys_stack s' = butlast (target s) @ [''item''] \<and>
     length (data_stack s) = length (butlast (target s)) \<and>
     (data_stack s \<noteq> [] \<longrightarrow>
        (\<exists>p i. last (data_stack s) = PRef p \<and> gen_at (store s') p (last (butlast (target s))) i))"
proof -
  have st0: "is_start ev"
    using assms(1) by (cases ev) (auto simp: start_parse_step_def split: if_splits sum.splits)
  with assms(1) have st: "keys_stack s = butlast (target s)"
    and pc: "push_container PGen s = Inr s'"
    by (auto simp: start_parse_step_def split: if_splits sum.splits)
  have stacks: "data_stack s' = data_stack s @ [PGen]" "target s' = target s"
    "keys_stack s' = butlast (target s) @ [''item'']"
    "length (data_stack s) = length (butlast (target s))"
    using push_container_stacks[OF pc] st assms(3) by simp_all
  have "\<exists>p i. last (data_stack s) = PRef p \<and> gen_at (store s') p (last (butlast (target s))) i"
    if ne: "data_stack s \<noteq> []"
  proof -
    from ne assms(2) obtain p where p: "last (data_stack s) = PRef p" "p < length (store s)"
      by (auto simp: refs_valid_def dest!: last_in_set)
    from ne assms(3) have k: "keys_stack s \<noteq> []" by auto
    have "store s' = linked p (last (keys_stack s)) PGen (store s)"
      using pc k ne p by (auto simp: push_container_def link_linked)
    then have "gen_at (store s') p (last (keys_stack s)) (case store s ! p of PList xs \<Rightarrow> length xs | _ \<Rightarrow> 0)"
      using p(2) by (cases "store s ! p") (simp_all add: gen_at_def linked_def update_conv')
    with p(1) st show ?thesis by auto
  qed
  with stacks show ?thesis by blast
qed

lemma start_parse_handoff:
  "start_parse evs s = Inr (s', rest, True) \<Longrightarrow> refs_valid s \<Longrightarrow>
   length (keys_stack s) = length (data_stack s) \<Longrightarrow>
   \<exists>ds. data_stack s' = ds @ [PGen] \<and> keys_stack s' = butlast (target s') @ [''item''] \<and>
        length ds = length (butlast (target s')) \<and>
        (ds \<noteq> [] \<longrightarrow>
           (\<exists>p i. last ds = PRef p \<and> gen_at (store s') p (last (butlast (target s'))) i))"
proof (induction evs arbitrary: s)
  case Nil
  then show ?case by simp
next
  case (Cons ev evs)
  from Cons.prems(1) obtain s1 b where step: "start_parse_step ev s = Inr (s1, b)"
    by (auto split: sum.splits)
  show ?case
  proof (cases b)
    case True
    with step Cons.prems(1) have "s' = s1" by simp
    with step True Cons.prems(2,3) show ?thesis
      using start_parse_step_break[of ev s s1] by auto
  next
    case False
    with step Cons.prems(1) have "start_parse evs s1 = Inr (s', rest, True)" by simp
    moreover have "refs_valid s1" using step False Cons.prems(2)
      by (auto intro: start_parse_step_refs_valid)
    moreover have "length (keys_stack s1) = length (data_stack s1)"
      using start_parse_step_move[OF step] Cons.prems(3) by (rule stacks_move_length)
    ultimately show ?thesis by (rule Cons.IH)
  qed
qed

lemma refs_valid_init: "refs_valid (ijsondict_init prefix)"
  by (simp add: refs_valid_def ijsondict_init_def)

lemma build_scalar:
  assumes "is_scalar ev" "top_at s a"
  shows "build_step ev s =
     Some (s\<lparr>store := linked a (last (keys_stack s)) (event_value ev) (store s)\<rparr>)"
proof -
  have "store_scalar (event_value ev) s =
      Inr (s\<lparr>store := linked a (last (keys_stack s)) (event_value ev) (store s)\<rparr>)"
    using assms(2) by (simp add: store_scalar_def top_at_def link_linked)
  then have "generator_branch ev s =
      Inr (s\<lparr>store := linked a (last (keys_stack s)) (event_value ev) (store s),
              yield_flag := True\<rparr>, event_value ev)"
    using assms(1) by (cases ev) (simp_all add: generator_branch_def)
  then show ?thesis by (simp add: build_step_def)
qed

lemma build_start:
  assumes "is_start ev" "top_at s a"
  shows "build_step ev s =
     Some (s\<lparr>store := linked a (last (keys_stack s)) (PRef (length (store s))) (store s) @ [classmap ev],
             data_stack := data_stack s @ [PRef (length (store s))],
             keys_stack := keys_stack s @ [''item'']\<rparr>)"
proof -
  have "push_container (PRef (length (store s))) (s\<lparr>store := store s @ [classmap ev]\<rparr>) =
     Inr (s\<lparr>store := linked a (last (keys_stack s)) (PRef (length (store s))) (store s) @ [classmap ev],
             data_stack := data_stack s @ [PRef (length (store s))],
             keys_stack := keys_stack s @ [''item'']\<rparr>)"
    using assms(2) by (simp add: push_container_def top_at_def link_linked linked_append)
  then have "generator_branch ev s =
     Inr (s\<lparr>store := linked a (last (keys_stack s)) (PRef (length (store s))) (store s) @ [classmap ev],
             data_stack := data_stack s @ [PRef (length (store s))],
             keys_stack := keys_stack s @ [''item'']\<rparr>, event_value ev)"
    using assms(1) by (simp add: generator_branch_def)
  then show ?thesis by (simp add: build_step_def)
qed

lemma build_end:
  assumes "is_end ev" "keys_stack s \<noteq> []" "data_stack s \<noteq> []"
  shows "build_step ev s =
     Some (s\<lparr>keys_stack := butlast (keys_stack s), data_stack := butlast (data_stack s)\<rparr>)"
proof -
  have "\<not> is_start ev" using assms(1) by (cases ev) simp_all
  then have "generator_branch ev s =
     Inr (s\<lparr>keys_stack := butlast (keys_stack s), data_stack := butlast (data_stack s),
             yield_flag := True\<rparr>, last (data_stack s))"
    using assms by (simp add: generator_branch_def)
  then show ?thesis by (simp add: build_step_def)
qed

lemma build_map_key:
  assumes "keys_stack s \<noteq> []"
  shows "build_step (map_key k) s = Some (s\<lparr>keys_stack := butlast (keys_stack s) @ [k]\<rparr>)"
  using assms by (simp add: build_step_def generator_branch_def)

lemma build_run_append:
  "build_run bt xs s = Some s1 \<Longrightarrow> build_run bt (xs @ ys) s = build_run bt ys s1"
  by (induction xs arbitrary: s) (auto split: if_splits option.splits)

lemma build_run_Cons:
  "\<not> (is_start ev \<and> keys_stack s = bt) \<Longrightarrow> build_step ev s = Some s1 \<Longrightarrow>
   build_run bt (ev # evs) s = build_run bt evs s1"
  by auto


lemma run_elements:
  assumes IH: "\<And>v s a. v \<in> set vs \<Longrightarrow> top_at s a \<Longrightarrow> length bt \<le> length (keys_stack s) \<Longrightarrow>
                 keys_stack s \<noteq> bt \<Longrightarrow> value_built bt v s a"
    and "top_at s a" "store s ! a = PList xs0" "length bt \<le> length (keys_stack s)"
      "keys_stack s \<noteq> bt"
  shows "\<exists>xs ext. build_run bt (concat (map events_of vs)) s =
           Some (s\<lparr>store := (store s)[a := PList (xs0 @ xs)] @ ext\<rparr>)"
  using assms
proof (induction vs arbitrary: s xs0)
  case Nil
  have "(store s)[a := PList xs0] = store s"
    using Nil.prems by (metis list_update_id)
  then show ?case by (auto intro!: exI[of _ "[]"])
next
  case (Cons v vs)
  have a: "a < length (store s)" using Cons.prems(2) by (simp add: top_at_def)
  have "value_built bt v s a" using Cons.prems by simp
  then obtain x e1 where r1: "build_run bt (events_of v) s =
        Some (s\<lparr>store := linked a (last (keys_stack s)) x (store s) @ e1\<rparr>)"
    unfolding value_built_def by blast
  define s1 where "s1 = s\<lparr>store := (store s)[a := PList (xs0 @ [x])] @ e1\<rparr>"
  have s1: "build_run bt (events_of v) s = Some s1"
    using r1 a Cons.prems(3) by (simp add: s1_def linked_list)
  have "\<exists>xs ext. build_run bt (concat (map events_of vs)) s1 =
           Some (s1\<lparr>store := (store s1)[a := PList ((xs0 @ [x]) @ xs)] @ ext\<rparr>)"
  proof (rule Cons.IH)
    show "top_at s1 a" using Cons.prems(2) by (simp add: top_at_def s1_def)
    show "store s1 ! a = PList (xs0 @ [x])" using a by (simp add: s1_def nth_append)
    show "length bt \<le> length (keys_stack s1)" using Cons.prems(4) by (simp add: s1_def)
    show "keys_stack s1 \<noteq> bt" using Cons.prems(5) by (simp add: s1_def)
  qed (use Cons.prems(1) in simp)
  then obtain xs ext where r2: "build_run bt (concat (map events_of vs)) s1 =
           Some (s1\<lparr>store := (store s1)[a := PList ((xs0 @ [x]) @ xs)] @ ext\<rparr>)"
    by blast
  have "s1\<lparr>store := (store s1)[a := PList ((xs0 @ [x]) @ xs)] @ ext\<rparr> =
        s\<lparr>store := (store s)[a := PList (xs0 @ (x # xs))] @ (e1 @ ext)\<rparr>"
    using a by (simp add: s1_def list_update_append1)
  with r2 build_run_append[OF s1, of "concat (map events_of vs)"]
  have "build_run bt (concat (map events_of (v # vs))) s =
        Some (s\<lparr>store := (store s)[a := PList (xs0 @ (x # xs))] @ (e1 @ ext)\<rparr>)"
    by simp
  then show ?case by blast
qed

lemma run_members:
  assumes IH: "\<And>kv s a. kv \<in> set kvs \<Longrightarrow> top_at s a \<Longrightarrow> length bt \<le> length (keys_stack s) \<Longrightarrow>
                 keys_stack s \<noteq> bt \<Longrightarrow> value_built bt (snd kv) s a"
    and "top_at s a" "store s ! a = PDict d0" "length bt \<le> length (keys_stack s)"
      "\<forall>kv \<in> set kvs. butlast (keys_stack s) @ [fst kv] \<noteq> bt"
  shows "\<exists>kxs ext kk.
           build_run bt (concat (map (\<lambda>kv. map_key (fst kv) # events_of (snd kv)) kvs)) s =
             Some (s\<lparr>keys_stack := butlast (keys_stack s) @ [kk],
                     store := (store s)[a := PDict (foldl (\<lambda>d kx. AList.update (fst kx) (snd kx) d) d0 kxs)] @ ext\<rparr>) \<and>
           map fst kxs = map fst kvs"
  using assms
proof (induction kvs arbitrary: s d0)
  case Nil
  have "(store s)[a := PDict d0] = store s"
    using Nil.prems by (metis list_update_id)
  moreover have "keys_stack s \<noteq> []" using Nil.prems(2) by (simp add: top_at_def)
  ultimately show ?case
    by (auto intro!: exI[of _ "[]"] exI[of _ "last (keys_stack s)"])
next
  case (Cons kv kvs)
  have a: "a < length (store s)" and ks: "keys_stack s \<noteq> []"
    using Cons.prems(2) by (simp_all add: top_at_def)
  define sk where "sk = s\<lparr>keys_stack := butlast (keys_stack s) @ [fst kv]\<rparr>"
  have stepk: "build_step (map_key (fst kv)) s = Some sk"
    using ks by (simp add: build_map_key sk_def)
  have topk: "top_at sk a" using Cons.prems(2) by (simp add: top_at_def sk_def)
  have "value_built bt (snd kv) sk a"
  proof (rule Cons.prems(1))
    show "length bt \<le> length (keys_stack sk)" using Cons.prems(4) ks by (simp add: sk_def)
    show "keys_stack sk \<noteq> bt" using Cons.prems(5) by (simp add: sk_def)
  qed (use topk in simp_all)
  then obtain x e1 where r1: "build_run bt (events_of (snd kv)) sk =
        Some (sk\<lparr>store := linked a (last (keys_stack sk)) x (store sk) @ e1\<rparr>)"
    unfolding value_built_def by blast
  define s1 where "s1 = sk\<lparr>store := (store s)[a := PDict (AList.update (fst kv) x d0)] @ e1\<rparr>"
  have s1: "build_run bt (events_of (snd kv)) sk = Some s1"
    using r1 a Cons.prems(3) by (simp add: s1_def sk_def linked_dict)
  have "\<exists>kxs ext kk.
           build_run bt (concat (map (\<lambda>kv. map_key (fst kv) # events_of (snd kv)) kvs)) s1 =
             Some (s1\<lparr>keys_stack := butlast (keys_stack s1) @ [kk],
                     store := (store s1)[a := PDict (foldl (\<lambda>d kx. AList.update (fst kx) (snd kx) d) (AList.update (fst kv) x d0) kxs)] @ ext\<rparr>) \<and>
           map fst kxs = map fst kvs"
  proof (rule Cons.IH)
    show "top_at s1 a" using Cons.prems(2) by (simp add: top_at_def s1_def sk_def)
    show "store s1 ! a = PDict (AList.update (fst kv) x d0)" using a by (simp add: s1_def nth_append)
    show "length bt \<le> length (keys_stack s1)" using Cons.prems(4) ks by (simp add: s1_def sk_def)
    show "\<forall>kv \<in> set kvs. butlast (keys_stack s1) @ [fst kv] \<noteq> bt"
      using Cons.prems(5) by (simp add: s1_def sk_def)
  qed (use Cons.prems(1) in simp)
  then obtain kxs ext kk where r2:
    "build_run bt (concat (map (\<lambda>kv. map_key (fst kv) # events_of (snd kv)) kvs)) s1 =
             Some (s1\<lparr>keys_stack := butlast (keys_stack s1) @ [kk],
                     store := (store s1)[a := PDict (foldl (\<lambda>d kx. AList.update (fst kx) (snd kx) d) (AList.update (fst kv) x d0) kxs)] @ ext\<rparr>)"
    "map fst kxs = map fst kvs"
    by blast
  have eq: "s1\<lparr>keys_stack := butlast (keys_stack s1) @ [kk],
                     store := (store s1)[a := PDict (foldl (\<lambda>d kx. AList.update (fst kx) (snd kx) d) (AList.update (fst kv) x d0) kxs)] @ ext\<rparr> =
        s\<lparr>keys_stack := butlast (keys_stack s) @ [kk],
            store := (store s)[a := PDict (foldl (\<lambda>d kx. AList.update (fst kx) (snd kx) d) d0 ((fst kv, x) # kxs))] @ (e1 @ ext)\<rparr>"
    using a by (simp add: s1_def sk_def list_update_append1)
  have "build_run bt (map_key (fst kv) # events_of (snd kv)) s = Some s1"
    using stepk s1 by simp
  from build_run_append[OF this, of "concat (map (\<lambda>kv. map_key (fst kv) # events_of (snd kv)) kvs)"] r2(1) eq
  have "build_run bt (concat (map (\<lambda>kv. map_key (fst kv) # events_of (snd kv)) (kv # kvs))) s =
        Some (s\<lparr>keys_stack := butlast (keys_stack s) @ [kk],
            store := (store s)[a := PDict (foldl (\<lambda>d kx. AList.update (fst kx) (snd kx) d) d0 ((fst kv, x) # kxs))] @ (e1 @ ext)\<rparr>)"
    by simp
  moreover have "map fst ((fst kv, x) # kxs) = map fst (kv # kvs)" using r2(2) by simp
  ultimately show ?case by blast
qed


lemma value_built_scalar:
  assumes "top_at s a" "is_scalar ev" "events_of v = [ev]"
  shows "value_built bt v s a"
proof -
  have "\<not> is_start ev" using assms(2) by (cases ev) simp_all
  then have "build_run bt [ev] s =
     Some (s\<lparr>store := linked a (last (keys_stack s)) (event_value ev) (store s) @ []\<rparr>)"
    using build_scalar[OF assms(2,1)] by simp
  then show ?thesis unfolding value_built_def assms(3) by blast
qed

lemma value_built_container:
  assumes top: "top_at s a" and len: "length bt \<le> length (keys_stack s)" "keys_stack s \<noteq> bt"
    and ev: "is_start ev" "is_end ev'"
    and evs: "events_of v = ev # body @ [ev']"
    and inner: "\<And>s1. top_at s1 (length (store s)) \<Longrightarrow> store s1 ! length (store s) = classmap ev \<Longrightarrow>
        keys_stack s1 = keys_stack s @ [''item''] \<Longrightarrow>
        \<exists>obj ext kk. build_run bt body s1 =
          Some (s1\<lparr>keys_stack := butlast (keys_stack s1) @ [kk],
                  store := (store s1)[length (store s) := obj] @ ext\<rparr>)"
  shows "value_built bt v s a"
proof -
  define n where "n = length (store s)"
  define s1 where "s1 = s\<lparr>store := linked a (last (keys_stack s)) (PRef n) (store s) @ [classmap ev],
             data_stack := data_stack s @ [PRef n],
             keys_stack := keys_stack s @ [''item'']\<rparr>"
  have step1: "build_step ev s = Some s1"
    using build_start[OF ev(1) top] by (simp add: s1_def n_def)
  have "\<exists>obj ext kk. build_run bt body s1 =
          Some (s1\<lparr>keys_stack := butlast (keys_stack s1) @ [kk],
                  store := (store s1)[length (store s) := obj] @ ext\<rparr>)"
  proof (rule inner)
    show "top_at s1 (length (store s))" by (simp add: top_at_def s1_def n_def)
    show "store s1 ! length (store s) = classmap ev" by (simp add: s1_def nth_append)
    show "keys_stack s1 = keys_stack s @ [''item'']" by (simp add: s1_def)
  qed
  then obtain obj ext kk where body: "build_run bt body s1 =
          Some (s1\<lparr>keys_stack := butlast (keys_stack s1) @ [kk],
                  store := (store s1)[n := obj] @ ext\<rparr>)"
    unfolding n_def by blast
  define s2 where "s2 = s1\<lparr>keys_stack := butlast (keys_stack s1) @ [kk],
                  store := (store s1)[n := obj] @ ext\<rparr>"
  have step2: "build_step ev' s2 =
     Some (s2\<lparr>keys_stack := butlast (keys_stack s2), data_stack := butlast (data_stack s2)\<rparr>)"
    using ev(2) by (rule build_end) (simp_all add: s2_def s1_def)
  have lu: "(linked a (last (keys_stack s)) (PRef n) (store s) @ [classmap ev])[n := obj] =
        linked a (last (keys_stack s)) (PRef n) (store s) @ [obj]"
    using list_update_length[of "linked a (last (keys_stack s)) (PRef n) (store s)" "classmap ev" "[]" obj]
    by (simp add: n_def)
  have fin: "s2\<lparr>keys_stack := butlast (keys_stack s2), data_stack := butlast (data_stack s2)\<rparr> =
        s\<lparr>store := linked a (last (keys_stack s)) (PRef n) (store s) @ (obj # ext)\<rparr>"
    by (simp add: s2_def s1_def lu)
  have ns: "\<not> is_start ev'" using ev(2) by (cases ev') simp_all
  have "build_run bt [ev'] s2 =
     Some (s\<lparr>store := linked a (last (keys_stack s)) (PRef n) (store s) @ (obj # ext)\<rparr>)"
    using step2 fin ns by simp
  moreover have "build_run bt body s1 = Some s2" using body by (simp add: s2_def)
  ultimately have "build_run bt (body @ [ev']) s1 =
     Some (s\<lparr>store := linked a (last (keys_stack s)) (PRef n) (store s) @ (obj # ext)\<rparr>)"
    by (simp add: build_run_append)
  then have "build_run bt (ev # body @ [ev']) s =
     Some (s\<lparr>store := linked a (last (keys_stack s)) (PRef n) (store s) @ (obj # ext)\<rparr>)"
    using step1 len(2) by simp
  then show ?thesis unfolding value_built_def evs by blast
qed

lemma value_built_all:
  "top_at s a \<Longrightarrow> length bt \<le> length (keys_stack s) \<Longrightarrow> keys_stack s \<noteq> bt \<Longrightarrow>
   value_built bt v s a"
proof (induction v arbitrary: s a)
  case JNull
  then show ?case by (intro value_built_scalar[where ev = null_ev]) simp_all
next
  case (JBool x)
  then show ?case by (intro value_built_scalar[where ev = "boolean x"]) simp_all
next
  case (JNum x)
  then show ?case by (intro value_built_scalar[where ev = "number x"]) simp_all
next
  case (JStr x)
  then show ?case by (intro value_built_scalar[where ev = "string_ev x"]) simp_all
next
  case (JArr vs)
  show ?case
  proof (rule value_built_container[OF JArr.prems, where ev = start_array and ev' = end_array
        and body = "concat (map events_of vs)"])
    fix s1 :: ijsondict
    assume s1: "top_at s1 (length (store s))" "store s1 ! length (store s) = classmap start_array"
      "keys_stack s1 = keys_stack s @ [''item'']"
    have "\<exists>xs ext. build_run bt (concat (map events_of vs)) s1 =
           Some (s1\<lparr>store := (store s1)[length (store s) := PList ([] @ xs)] @ ext\<rparr>)"
    proof (rule run_elements)
      show "length bt \<le> length (keys_stack s1)" using s1(3) JArr.prems(2) by simp
      show "keys_stack s1 \<noteq> bt" using s1(3) JArr.prems(2) by auto
    qed (use s1 JArr.IH in simp_all)
    then obtain xs ext where r: "build_run bt (concat (map events_of vs)) s1 =
           Some (s1\<lparr>store := (store s1)[length (store s) := PList xs] @ ext\<rparr>)"
      by auto
    have "s1\<lparr>store := (store s1)[length (store s) := PList xs] @ ext\<rparr> =
          s1\<lparr>keys_stack := butlast (keys_stack s1) @ [''item''],
              store := (store s1)[length (store s) := PList xs] @ ext\<rparr>"
      by (simp add: s1(3))
    with r show "\<exists>obj ext kk. build_run bt (concat (map events_of vs)) s1 =
          Some (s1\<lparr>keys_stack := butlast (keys_stack s1) @ [kk],
                  store := (store s1)[length (store s) := obj] @ ext\<rparr>)"
      by metis
  qed simp_all
next
  case (JObj kvs)
  have IH: "\<And>kv s a. kv \<in> set kvs \<Longrightarrow> top_at s a \<Longrightarrow> length bt \<le> length (keys_stack s) \<Longrightarrow>
                 keys_stack s \<noteq> bt \<Longrightarrow> value_built bt (snd kv) s a"
  proof -
    fix kv and s :: ijsondict and a
    assume "kv \<in> set kvs" "top_at s a" "length bt \<le> length (keys_stack s)" "keys_stack s \<noteq> bt"
    moreover have "snd kv \<in> Basic_BNFs.snds kv" by (cases kv) simp
    ultimately show "value_built bt (snd kv) s a" using JObj.IH by blast
  qed
  show ?case
  proof (rule value_built_container[OF JObj.prems, where ev = start_map and ev' = end_map
        and body = "concat (map (\<lambda>kv. map_key (fst kv) # events_of (snd kv)) kvs)"])
    fix s1 :: ijsondict
    assume s1: "top_at s1 (length (store s))" "store s1 ! length (store s) = classmap start_map"
      "keys_stack s1 = keys_stack s @ [''item'']"
    have "\<exists>kxs ext kk.
           build_run bt (concat (map (\<lambda>kv. map_key (fst kv) # events_of (snd kv)) kvs)) s1 =
             Some (s1\<lparr>keys_stack := butlast (keys_stack s1) @ [kk],
                     store := (store s1)[length (store s) := PDict (foldl (\<lambda>d kx. AList.update (fst kx) (snd kx) d) [] kxs)] @ ext\<rparr>) \<and>
           map fst kxs = map fst kvs"
    proof (rule run_members)
      show "length bt \<le> length (keys_stack s1)" using s1(3) JObj.prems(2) by simp
      show "\<forall>kv \<in> set kvs. butlast (keys_stack s1) @ [fst kv] \<noteq> bt"
        using s1(3) JObj.prems(2) by auto
    qed (use s1 IH in simp_all)
    then show "\<exists>obj ext kk. build_run bt (concat (map (\<lambda>kv. map_key (fst kv) # events_of (snd kv)) kvs)) s1 =
          Some (s1\<lparr>keys_stack := butlast (keys_stack s1) @ [kk],
                  store := (store s1)[length (store s) := obj] @ ext\<rparr>)"
      by blast
  qed simp_all
qed

lemma push_container_flag:
  "push_container this (s\<lparr>yield_flag := f\<rparr>) =
     (case push_container this s of Inl e \<Rightarrow> Inl e | Inr s' \<Rightarrow> Inr (s'\<lparr>yield_flag := f\<rparr>))"
  by (simp add: push_container_def split: sum.splits)

lemma store_scalar_flag:
  "store_scalar v (s\<lparr>yield_flag := f\<rparr>) =
     (case store_scalar v s of Inl e \<Rightarrow> Inl e | Inr s' \<Rightarrow> Inr (s'\<lparr>yield_flag := f\<rparr>))"
  by (simp add: store_scalar_def split: sum.splits)

lemma build_step_flag:
  "build_step ev (s\<lparr>yield_flag := f\<rparr>) = map_option (\<lambda>s1. s1\<lparr>yield_flag := f\<rparr>) (build_step ev s)"
proof (cases "is_start ev")
  case True
  have "push_container (PRef (length (store s))) (s\<lparr>yield_flag := f, store := store s @ [classmap ev]\<rparr>) =
     (case push_container (PRef (length (store s))) (s\<lparr>store := store s @ [classmap ev]\<rparr>) of
        Inl e \<Rightarrow> Inl e | Inr s' \<Rightarrow> Inr (s'\<lparr>yield_flag := f\<rparr>))"
    by (simp add: push_container_def split: sum.splits)
  with True show ?thesis
    by (simp add: build_step_def generator_branch_def split: sum.splits)
next
  case False
  show ?thesis
  proof (cases "is_end ev \<or> (\<exists>k. ev = map_key k)")
    case True
    with False show ?thesis
      by (auto simp: build_step_def generator_branch_def)
  next
    case other: False
    with False have "generator_branch ev s =
        (case store_scalar (event_value ev) s of
           Inl e \<Rightarrow> Inl e | Inr s' \<Rightarrow> Inr (s'\<lparr>yield_flag := True\<rparr>, event_value ev))" for s
      by (cases ev) (auto simp: generator_branch_def split: sum.splits)
    then show ?thesis
      by (simp add: build_step_def store_scalar_flag split: sum.splits)
  qed
qed

lemma build_run_flag:
  "build_run bt evs (s\<lparr>yield_flag := f\<rparr>) =
     map_option (\<lambda>s1. s1\<lparr>yield_flag := f\<rparr>) (build_run bt evs s)"
proof (induction evs arbitrary: s)
  case Nil
  then show ?case by simp
next
  case (Cons ev evs)
  show ?case
  proof (cases "build_step ev s")
    case None
    then show ?thesis by (simp add: build_step_flag)
  next
    case (Some s1)
    then show ?thesis using Cons.IH[of s1] by (simp add: build_step_flag)
  qed
qed

lemma build_step_generator:
  assumes "build_step ev s = Some s1"
  shows "\<exists>f y. json_generator_step ev s = Inr (s1\<lparr>yield_flag := f\<rparr>, y)"
proof -
  from assms obtain s' v where b: "generator_branch ev s = Inr (s', v)"
    and s1: "s1 = s'\<lparr>yield_flag := yield_flag s\<rparr>"
    by (auto simp: build_step_def split: sum.splits)
  have "json_generator_step ev s = Inr (s'\<lparr>yield_flag := False\<rparr>, Some v) \<or>
        json_generator_step ev s = Inr (s'\<lparr>yield_flag := yield_flag s'\<rparr>, None)"
    using b by (simp add: json_generator_step_def)
  moreover have "s'\<lparr>yield_flag := g\<rparr> = s1\<lparr>yield_flag := g\<rparr>" for g
    by (simp add: s1)
  ultimately show ?thesis by metis
qed

lemma build_run_generator:
  "build_run bt evs s = Some s1 \<Longrightarrow>
   \<exists>f ys. json_generator_loop evs s = (ys, Inr (s1\<lparr>yield_flag := f\<rparr>))"
proof (induction evs arbitrary: s s1)
  case Nil
  then have "s1\<lparr>yield_flag := yield_flag s1\<rparr> = s" by simp
  then show ?case by (metis json_generator_loop.simps(1))
next
  case (Cons ev evs)
  from Cons.prems obtain s0 where b: "build_step ev s = Some s0" and r: "build_run bt evs s0 = Some s1"
    by (auto split: if_splits option.splits)
  from b obtain f0 y where st: "json_generator_step ev s = Inr (s0\<lparr>yield_flag := f0\<rparr>, y)"
    using build_step_generator by blast
  have "build_run bt evs (s0\<lparr>yield_flag := f0\<rparr>) = Some (s1\<lparr>yield_flag := f0\<rparr>)"
    using r by (simp add: build_run_flag)
  from Cons.IH[OF this] obtain f ys where
    l: "json_generator_loop evs (s0\<lparr>yield_flag := f0\<rparr>) = (ys, Inr (s1\<lparr>yield_flag := f\<rparr>))"
    by auto
  from loop_Cons[OF st l] show ?case by blast
qed

lemma build_step_fields:
  assumes "build_step ev s = Some s1"
  shows "target s1 = target s \<and> first s1 = first s \<and> yield_flag s1 = yield_flag s"
proof -
  from assms obtain s' v where b: "generator_branch ev s = Inr (s', v)"
    and s1: "s1 = s'\<lparr>yield_flag := yield_flag s\<rparr>"
    by (auto simp: build_step_def split: sum.splits)
  have "target s' = target s \<and> first s' = first s"
  proof (cases "is_start ev")
    case True
    with b show ?thesis
      by (auto simp: generator_branch_def split: sum.splits dest!: push_container_stacks)
  next
    case False
    show ?thesis
    proof (cases "is_end ev \<or> (\<exists>k. ev = map_key k)")
      case True
      with False b show ?thesis by (auto simp: generator_branch_def split: if_splits)
    next
      case other: False
      with False b
      have "\<exists>s2. store_scalar (event_value ev) s = Inr s2 \<and> s' = s2\<lparr>yield_flag := True\<rparr>"
        by (cases ev) (simp_all add: generator_branch_def split: sum.splits)
      then show ?thesis by (auto dest!: store_scalar_stacks)
    qed
  qed
  with s1 show ?thesis by simp
qed

lemma build_step_start_parse:
  assumes "build_step ev s = Some s1" "\<not> first s"
    "\<not> (is_start ev \<and> keys_stack s = butlast (target s))"
  shows "start_parse_step ev s = Inr (s1, False)"
proof -
  from assms(1) obtain s' v where b: "generator_branch ev s = Inr (s', v)"
    and s1: "s1 = s'\<lparr>yield_flag := yield_flag s\<rparr>"
    by (auto simp: build_step_def split: sum.splits)
  show ?thesis
  proof (cases "is_start ev")
    case True
    with b have pc: "push_container (PRef (length (store s))) (s\<lparr>store := store s @ [classmap ev]\<rparr>) = Inr s'"
      by (auto simp: generator_branch_def split: sum.splits)
    then have "yield_flag s' = yield_flag s" by (auto dest!: push_container_stacks)
    then have "s1 = s'" by (simp add: s1)
    with True pc assms(2,3) show ?thesis by (simp add: start_parse_step_def)
  next
    case False
    show ?thesis
    proof (cases "is_end ev \<or> (\<exists>k. ev = map_key k)")
      case True
      with False b s1 show ?thesis
        by (auto simp: generator_branch_def start_parse_step_def split: if_splits)
    next
      case other: False
      with False b
      have "\<exists>s2. store_scalar (event_value ev) s = Inr s2 \<and> s' = s2\<lparr>yield_flag := True\<rparr>"
        by (cases ev) (simp_all add: generator_branch_def split: sum.splits)
      then obtain s2 where s2: "store_scalar (event_value ev) s = Inr s2" "s' = s2\<lparr>yield_flag := True\<rparr>"
        by blast
      then have "yield_flag s2 = yield_flag s" by (auto dest!: store_scalar_stacks)
      then have "s1 = s2" by (simp add: s1 s2(2))
      with other False s2(1) show ?thesis
        by (cases ev) (simp_all add: start_parse_step_def)
    qed
  qed
qed

lemma build_run_start_parse:
  "build_run (butlast (target s)) evs s = Some s1 \<Longrightarrow> \<not> first s \<Longrightarrow>
   start_parse (evs @ rest) s = start_parse rest s1"
proof (induction evs arbitrary: s)
  case Nil
  then show ?case by simp
next
  case (Cons ev evs)
  from Cons.prems(1) obtain s0 where g: "\<not> (is_start ev \<and> keys_stack s = butlast (target s))"
    and b: "build_step ev s = Some s0" and r: "build_run (butlast (target s)) evs s0 = Some s1"
    by (auto split: if_splits option.splits)
  have f: "target s0 = target s" "\<not> first s0"
    using build_step_fields[OF b] Cons.prems(2) by simp_all
  have st: "start_parse_step ev s = Inr (s0, False)"
    using b Cons.prems(2) g by (rule build_step_start_parse)
  have "start_parse (evs @ rest) s0 = start_parse rest s1"
    using r f by (intro Cons.IH) simp_all
  with st show ?case by simp
qed

lemma root_members:
  assumes "data_stack s = [PRef 0]" "keys_stack s = [k0]" "store s = PDict d0 # h"
    "k \<notin> fst ` set kvs"
  shows "\<exists>d ext kk.
           build_run [k] (concat (map (\<lambda>kv. map_key (fst kv) # events_of (snd kv)) kvs)) s =
             Some (s\<lparr>keys_stack := [kk], store := PDict d # h @ ext\<rparr>) \<and>
           map_of d k = map_of d0 k"
proof -
  have "\<exists>kxs ext kk.
           build_run [k] (concat (map (\<lambda>kv. map_key (fst kv) # events_of (snd kv)) kvs)) s =
             Some (s\<lparr>keys_stack := butlast (keys_stack s) @ [kk],
                     store := (store s)[0 := PDict (foldl (\<lambda>d kx. AList.update (fst kx) (snd kx) d) d0 kxs)] @ ext\<rparr>) \<and>
           map fst kxs = map fst kvs"
  proof (rule run_members)
    show "top_at s 0" using assms(1-3) by (simp add: top_at_def)
    show "store s ! 0 = PDict d0" using assms(3) by simp
    show "length [k] \<le> length (keys_stack s)" using assms(2) by simp
    show "\<forall>kv \<in> set kvs. butlast (keys_stack s) @ [fst kv] \<noteq> [k]"
      using assms(2,4) by auto
  qed (rule value_built_all)
  then obtain kxs ext kk where r:
    "build_run [k] (concat (map (\<lambda>kv. map_key (fst kv) # events_of (snd kv)) kvs)) s =
       Some (s\<lparr>keys_stack := butlast (keys_stack s) @ [kk],
               store := (store s)[0 := PDict (foldl (\<lambda>d kx. AList.update (fst kx) (snd kx) d) d0 kxs)] @ ext\<rparr>)"
    "map fst kxs = map fst kvs"
    by blast
  have "k \<notin> fst ` set (rev kxs)"
    using assms(4) r(2) by (metis list.set_map set_rev)
  then have "map_of (rev kxs) k = None" by (simp add: map_of_eq_None_iff)
  then have "map_of (foldl (\<lambda>d kx. AList.update (fst kx) (snd kx) d) d0 kxs) k = map_of d0 k"
    using map_of_foldl_update[where f = "\<lambda>x. x" and d = d0 and kvs = kxs and k = k] by simp
  with r(1) show ?thesis using assms(2,3) by auto
qed

text \<open>
  A pass over a whole document.  The document is an object in which the key \<open>k\<close> occurs
  once, with an array as its value; the target path is \<open>k\<close> followed by \<^verbatim>\<open>'item'\<close>.  The members
  before \<open>k\<close> are built by \<^verbatim>\<open>_start_parse\<close>, which stops at the array; the generator streams
  the items of the array and builds the members after \<open>k\<close>; nothing raises, and at the end
  the \<^verbatim>\<open>ijsondict\<close> holds the generator object under \<open>k\<close>.
\<close>

lemma generator_kept_in_root_object:
  assumes "k \<notin> fst ` set pre" "k \<notin> fst ` set post"
    "target (ijsondict_init prefix) = [k, ''item'']"
  shows "\<exists>s rest ys s'.
           start_parse (events_of (JObj (pre @ (k, JArr vs) # post))) (ijsondict_init prefix) =
             Inr (s, rest, True) \<and>
           json_generator rest s = (ys, Inr s') \<and>
           gen_at (store s') 0 k 0 \<and> keys_stack s' = [] \<and> data_stack s' = []"
proof -
  let ?M = "\<lambda>kvs. concat (map (\<lambda>kv. map_key (fst kv) # events_of (snd kv)) kvs)"
  let ?I = "concat (map events_of vs)"
  define R' where "R' = ?I @ [end_array] @ ?M post @ [end_map]"
  define s1 where "s1 = \<lparr>keys_stack = [''item''], data_stack = [PRef 0], target = [k, ''item''],
      store = [PDict []], first = False, yield_flag = False\<rparr>"
  have ev: "events_of (JObj (pre @ (k, JArr vs) # post)) =
      start_map # (?M pre @ (map_key k # start_array # R'))"
    by (simp add: R'_def)
  have "ijsondict_init prefix = \<lparr>keys_stack = [], data_stack = [], target = [k, ''item''],
      store = [PDict []], first = True, yield_flag = False\<rparr>"
    using assms(3) by (simp add: ijsondict_init_def)
  then have st1: "start_parse_step start_map (ijsondict_init prefix) = Inr (s1, False)"
    by (simp add: start_parse_step_def push_container_def s1_def)
  obtain d2 e2 kk where r2:
    "build_run [k] (?M pre) s1 = Some (s1\<lparr>keys_stack := [kk], store := PDict d2 # [] @ e2\<rparr>)"
    using root_members[of s1 "''item''" "[]" "[]" k pre] assms(1) by (auto simp: s1_def)
  define s2 where "s2 = s1\<lparr>keys_stack := [kk], store := PDict d2 # e2\<rparr>"
  have "build_run (butlast (target s1)) (?M pre) s1 = Some s2"
    using r2 by (simp add: s1_def s2_def)
  then have sp2: "start_parse (?M pre @ (map_key k # start_array # R')) s1 =
      start_parse (map_key k # start_array # R') s2"
    by (rule build_run_start_parse) (simp add: s1_def)
  define s4 where "s4 = \<lparr>keys_stack = [k, ''item''], data_stack = [PRef 0, PGen],
      target = [k, ''item''], store = PDict (AList.update k PGen d2) # e2,
      first = False, yield_flag = False\<rparr>"
  have sp3: "start_parse (map_key k # start_array # R') s2 = Inr (s4, R', True)"
    by (simp add: start_parse_step_def push_container_def link_def s2_def s1_def s4_def)
  have phase1: "start_parse (events_of (JObj (pre @ (k, JArr vs) # post)))
      (ijsondict_init prefix) = Inr (s4, R', True)"
    unfolding ev using st1 sp2 sp3 by simp
  obtain xs ext w1 where g1: "json_generator (?I @ [end_array]) s4 = (xs, Inr w1)"
    "store w1 = store s4 @ ext" "keys_stack w1 = butlast (keys_stack s4)"
    "data_stack w1 = butlast (data_stack s4)"
    using generator_streams_array[of s4 vs] by (auto simp: s4_def)
  obtain s0 where s0: "json_generator_start s4 = Inr s0"
    "json_generator_loop (?I @ [end_array]) s0 = (xs, Inr w1)"
    using g1(1) by (auto simp: json_generator_def split: sum.splits)
  have w1: "data_stack w1 = [PRef 0]" "keys_stack w1 = [k]"
    "store w1 = PDict (AList.update k PGen d2) # (e2 @ ext)"
    using g1 by (simp_all add: s4_def)
  obtain d3 e3 kk' where r3:
    "build_run [k] (?M post) w1 = Some (w1\<lparr>keys_stack := [kk'], store := PDict d3 # (e2 @ ext) @ e3\<rparr>)"
    "map_of d3 k = map_of (AList.update k PGen d2) k"
    using root_members[OF w1 assms(2)] by blast
  define w2 where "w2 = w1\<lparr>keys_stack := [kk'], store := PDict d3 # (e2 @ ext) @ e3\<rparr>"
  obtain f ys2 where l2: "json_generator_loop (?M post) w1 = (ys2, Inr (w2\<lparr>yield_flag := f\<rparr>))"
    using build_run_generator[of "[k]" "?M post" w1 w2] r3(1) by (auto simp: w2_def)
  define w3 where "w3 = (w2\<lparr>yield_flag := f\<rparr>)\<lparr>keys_stack := butlast (keys_stack (w2\<lparr>yield_flag := f\<rparr>)),
      data_stack := butlast (data_stack (w2\<lparr>yield_flag := f\<rparr>)),
      yield_flag := (butlast (keys_stack (w2\<lparr>yield_flag := f\<rparr>)) \<noteq> target (w2\<lparr>yield_flag := f\<rparr>))\<rparr>"
  have "\<exists>y. json_generator_step end_map (w2\<lparr>yield_flag := f\<rparr>) = Inr (w3, y)"
    unfolding w3_def using gen_step_end[of end_map "w2\<lparr>yield_flag := f\<rparr>"] w1
    by (simp add: w2_def)
  then obtain y where "json_generator_step end_map (w2\<lparr>yield_flag := f\<rparr>) = Inr (w3, y)"
    by blast
  from loop_single[OF this] obtain ys3 where
    l3: "json_generator_loop [end_map] (w2\<lparr>yield_flag := f\<rparr>) = (ys3, Inr w3)"
    by blast
  from loop_append[OF l2 l3] have l23: "json_generator_loop (?M post @ [end_map]) w1 = (ys2 @ ys3, Inr w3)" .
  from loop_append[OF s0(2) l23]
  have "json_generator_loop R' s0 = (xs @ ys2 @ ys3, Inr w3)"
    by (simp add: R'_def)
  with s0(1) have phase2: "json_generator R' s4 = (xs @ ys2 @ ys3, Inr w3)"
    by (simp add: json_generator_def)
  have "store w3 = PDict d3 # (e2 @ ext) @ e3" "keys_stack w3 = []" "data_stack w3 = []"
    using w1 by (simp_all add: w3_def w2_def)
  moreover have "map_of d3 k = Some PGen" using r3(2) by (simp add: update_conv')
  ultimately have "gen_at (store w3) 0 k 0 \<and> keys_stack w3 = [] \<and> data_stack w3 = []"
    by (simp add: gen_at_def)
  with phase1 phase2 show ?thesis by blast
qed

text \<open>
  C10, as stated, fails.  With the target \<^verbatim>\<open>"item.item"\<close> on the events of \<^verbatim>\<open>[[1], [2]]\<close> the
  generator object is stored under the key \<^verbatim>\<open>'item'\<close> of the \<^verbatim>\<open>ijsondict\<close> (the root array is
  the \<^verbatim>\<open>ijsondict\<close> itself, a dictionary).  The generator then builds the second inner array
  as an ordinary list and stores it under the same key: when the stream is exhausted the
  entry is the list \<^verbatim>\<open>[2]\<close>, not the generator object.
\<close>

theorem generator_entry_overwritten:
  "start_parse (events_of (JArr [JArr [JNum 1], JArr [JNum 2]])) (ijsondict_init (Inl ''item.item'')) =
     Inr (\<lparr>keys_stack = [''item'', ''item''], data_stack = [PRef 0, PGen],
           target = [''item'', ''item''], store = [PDict [(''item'', PGen)]],
           first = False, yield_flag = False\<rparr>,
          [number 1, end_array, start_array, number 2, end_array, end_array], True) \<and>
   snd (json_generator [number 1, end_array, start_array, number 2, end_array, end_array]
          \<lparr>keys_stack = [''item'', ''item''], data_stack = [PRef 0, PGen],
           target = [''item'', ''item''], store = [PDict [(''item'', PGen)]],
           first = False, yield_flag = False\<rparr>) =
     Inr \<lparr>keys_stack = [], data_stack = [], target = [''item'', ''item''],
          store = [PDict [(''item'', PRef 2)], PList [PNum 1], PList [PNum 2]],
          first = False, yield_flag = True\<rparr>"
  by code_simp

text \<open>
  In that run the iteration on the second \<^verbatim>\<open>start_array\<close> is the one that stores a value
  under the key \<^verbatim>\<open>'item'\<close> of the dictionary at address 0.
\<close>

lemma overwritten_in_root_array:
  "\<not> never_overwritten 0 ''item'' [number 1, end_array, start_array, number 2, end_array, end_array]
       \<lparr>keys_stack = [''item'', ''item''], data_stack = [PRef 0, PGen],
        target = [''item'', ''item''], store = [PDict [(''item'', PGen)]],
        first = False, yield_flag = False\<rparr>"
  by code_simp

text \<open>
  C10, amended.  For every event stream on which the loop of \<^verbatim>\<open>_start_parse\<close> ends by
  \<^verbatim>\<open>break\<close>, the generator object is on top of the data stack, and when a container lies
  below it there (the parent: the target path has more than one segment) the generator
  object itself is an entry of the parent, under the key pending at the \<^verbatim>\<open>break\<close> (the last
  segment but one of the target path) when the parent is a dictionary, as an element when it
  is a list.  When the generator is then run, without raising, until the stream is exhausted,
  the entry of the parent is still the generator object, provided that no iteration of the
  generator has stored a value under that key of that dictionary; when the parent is a list
  the entry is kept whatever the events are.  And when the generator, started with the keys stack equal
  to the target path, has read the items of the target array and its \<^verbatim>\<open>end_array\<close>, every
  object that was in the store at the start is as it was: the streamed items are in objects
  of their own, not in the parent.  In particular, for every document that is an object in
  which a key \<open>k\<close> occurs once, with an array as its value, and for the target path made of
  \<open>k\<close> and \<^verbatim>\<open>'item'\<close>: the loop of \<^verbatim>\<open>_start_parse\<close> ends by \<^verbatim>\<open>break\<close> at that array, the generator
  runs over the remaining events to exhaustion without raising, and at the end the
  \<^verbatim>\<open>ijsondict\<close> holds the generator object under \<open>k\<close>.
\<close>

theorem generator_object_kept_in_parent:
  "(start_parse evs (ijsondict_init prefix) = Inr (s, rest, True) \<longrightarrow>
      (\<exists>ds. data_stack s = ds @ [PGen] \<and> keys_stack s = butlast (target s) @ [''item''] \<and>
            length ds = length (butlast (target s)) \<and>
            (ds \<noteq> [] \<longrightarrow>
               (\<exists>p i. last ds = PRef p \<and> gen_at (store s) p (last (butlast (target s))) i)))) \<and>
   (gen_at (store t) p k i \<and> json_generator parser t = (ys, Inr t') \<and> never_overwritten p k parser t \<longrightarrow>
      gen_at (store t') p k i) \<and>
   (gen_at (store u) q k' j \<and> \<not> is_dict (store u ! q) \<and> json_generator parser' u = (zs, Inr u') \<longrightarrow>
      gen_at (store u') q k' j) \<and>
   (keys_stack w = target w \<and> keys_stack w \<noteq> [] \<and> data_stack w \<noteq> [] \<longrightarrow>
      (\<exists>xs ext w'.
         json_generator (concat (map events_of vs) @ [end_array]) w = (xs, Inr w') \<and>
         store w' = store w @ ext \<and>
         keys_stack w' = butlast (keys_stack w) \<and> data_stack w' = butlast (data_stack w))) \<and>
   (target (ijsondict_init prefix') = [key, ''item''] \<and> key \<notin> fst ` set pre \<and> key \<notin> fst ` set post \<longrightarrow>
      (\<exists>h r out h'.
         start_parse (events_of (JObj (pre @ (key, JArr elems) # post))) (ijsondict_init prefix') =
           Inr (h, r, True) \<and>
         json_generator r h = (out, Inr h') \<and>
         gen_at (store h') 0 key 0 \<and> keys_stack h' = [] \<and> data_stack h' = []))"
proof (intro conjI impI)
  assume "start_parse evs (ijsondict_init prefix) = Inr (s, rest, True)"
  then show "\<exists>ds. data_stack s = ds @ [PGen] \<and> keys_stack s = butlast (target s) @ [''item''] \<and>
            length ds = length (butlast (target s)) \<and>
            (ds \<noteq> [] \<longrightarrow>
               (\<exists>p i. last ds = PRef p \<and> gen_at (store s) p (last (butlast (target s))) i))"
    by (rule start_parse_handoff) (simp_all add: refs_valid_init, simp add: ijsondict_init_def)
next
  assume "gen_at (store t) p k i \<and> json_generator parser t = (ys, Inr t') \<and> never_overwritten p k parser t"
  then show "gen_at (store t') p k i"
    using json_generator_keeps_gen[of parser t ys t' p k i] by blast
next
  assume a: "gen_at (store u) q k' j \<and> \<not> is_dict (store u ! q) \<and> json_generator parser' u = (zs, Inr u')"
  then obtain u0 where u0: "json_generator_start u = Inr u0"
    by (auto simp: json_generator_def split: sum.splits)
  then have "store u0 = store u @ [PList []]"
    by (auto simp: json_generator_start_def split: if_splits)
  moreover have q: "q < length (store u)" using a by (simp add: gen_at_def)
  ultimately have "q < length (store u0)" "\<not> is_dict (store u0 ! q)"
    using a by (simp_all add: nth_append)
  then have "no_overwrite q k' parser' u0" by (rule list_parent_no_overwrite)
  with u0 have "never_overwritten q k' parser' u" by (simp add: never_overwritten_def)
  with a show "gen_at (store u') q k' j"
    using json_generator_keeps_gen[of parser' u zs u' q k' j] by blast
next
  assume "keys_stack w = target w \<and> keys_stack w \<noteq> [] \<and> data_stack w \<noteq> []"
  then show "\<exists>xs ext w'.
         json_generator (concat (map events_of vs) @ [end_array]) w = (xs, Inr w') \<and>
         store w' = store w @ ext \<and>
         keys_stack w' = butlast (keys_stack w) \<and> data_stack w' = butlast (data_stack w)"
    using generator_streams_array [of w vs] by blast
next
  assume "target (ijsondict_init prefix') = [key, ''item''] \<and> key \<notin> fst ` set pre \<and> key \<notin> fst ` set post"
  then show "\<exists>h r out h'.
         start_parse (events_of (JObj (pre @ (key, JArr elems) # post))) (ijsondict_init prefix') =
           Inr (h, r, True) \<and>
         json_generator r h = (out, Inr h') \<and>
         gen_at (store h') 0 key 0 \<and> keys_stack h' = [] \<and> data_stack h' = []"
    using generator_kept_in_root_object [of key pre post prefix' elems] by blast
qed


theorem generator_object_kept_in_parent_witness:
  "start_parse (events_of (JObj [(''a'', JArr [JNum 1, JNum 2]), (''b'', JNum 3)])) (ijsondict_init (Inl ''a.item'')) =
     Inr (\<lparr>keys_stack = [''a'', ''item''], data_stack = [PRef 0, PGen], target = [''a'', ''item''],
       store = [PDict [(''a'', PGen)]], first = False, yield_flag = False\<rparr>,
          [number 1, number 2, end_array, map_key ''b'', number 3, end_map], True) \<and>
   (\<exists>p i. last [PRef 0] = PRef p \<and> gen_at [PDict [(''a'', PGen)]] p ''a'' i) \<and>
   json_generator [number 1, number 2, end_array, map_key ''b'', number 3, end_map]
     \<lparr>keys_stack = [''a'', ''item''], data_stack = [PRef 0, PGen], target = [''a'', ''item''],
       store = [PDict [(''a'', PGen)]], first = False, yield_flag = False\<rparr> =
     ([PNum 1, PNum 2],
      Inr \<lparr>keys_stack = [], data_stack = [], target = [''a'', ''item''],
       store = [PDict [(''a'', PGen), (''b'', PNum 3)], PList [PNum 1, PNum 2]],
       first = False, yield_flag = True\<rparr>) \<and>
   never_overwritten 0 ''a'' [number 1, number 2, end_array, map_key ''b'', number 3, end_map]
     \<lparr>keys_stack = [''a'', ''item''], data_stack = [PRef 0, PGen], target = [''a'', ''item''],
       store = [PDict [(''a'', PGen)]], first = False, yield_flag = False\<rparr> \<and>
   gen_at [PDict [(''a'', PGen), (''b'', PNum 3)], PList [PNum 1, PNum 2]] 0 ''a'' 0 \<and>
   json_generator [number 1, end_array, start_array, number 2, end_array, end_array, end_map]
     \<lparr>keys_stack = [''x'', ''item'', ''item''], data_stack = [PRef 0, PRef 1, PGen],
       target = [''x'', ''item'', ''item''], store = [PDict [(''x'', PRef 1)], PList [PGen]],
       first = False, yield_flag = False\<rparr> =
     ([PNum 1, PNone, PNum 2],
      Inr \<lparr>keys_stack = [], data_stack = [], target = [''x'', ''item'', ''item''],
       store = [PDict [(''x'', PRef 1)], PList [PGen, PRef 3], PList [PNum 1], PList [PNum 2]],
       first = False, yield_flag = True\<rparr>) \<and>
   \<not> is_dict ([PDict [(''x'', PRef 1)], PList [PGen]] ! 1) \<and>
   gen_at [PDict [(''x'', PRef 1)], PList [PGen, PRef 3], PList [PNum 1], PList [PNum 2]] 1 ''x'' 0 \<and>
   (\<exists>xs ext w'.
      json_generator (concat (map events_of [JNum 1, JArr [JNum 5]]) @ [end_array])
        \<lparr>keys_stack = [''a'', ''item''], data_stack = [PRef 0, PGen], target = [''a'', ''item''],
       store = [PDict [(''a'', PGen)]], first = False, yield_flag = False\<rparr> = (xs, Inr w') \<and>
      store w' = [PDict [(''a'', PGen)]] @ ext \<and>
      keys_stack w' = [''a''] \<and> data_stack w' = [PRef 0]) \<and>
   (\<exists>h r out h'.
      start_parse (events_of (JObj [(''z'', JObj [(''q'', JArr [JNum 0])]), (''a'', JArr [JNum 1, JNum 2]),
                                    (''b'', JNum 3)]))
        (ijsondict_init (Inl ''a.item'')) = Inr (h, r, True) \<and>
      json_generator r h = (out, Inr h') \<and>
      gen_at (store h') 0 ''a'' 0 \<and> keys_stack h' = [] \<and> data_stack h' = [])"
proof -
  have c1: "start_parse (events_of (JObj [(''a'', JArr [JNum 1, JNum 2]), (''b'', JNum 3)])) (ijsondict_init (Inl ''a.item'')) =
     Inr (\<lparr>keys_stack = [''a'', ''item''], data_stack = [PRef 0, PGen], target = [''a'', ''item''],
       store = [PDict [(''a'', PGen)]], first = False, yield_flag = False\<rparr>,
          [number 1, number 2, end_array, map_key ''b'', number 3, end_map], True)"
    by code_simp
  have c2: "json_generator [number 1, number 2, end_array, map_key ''b'', number 3, end_map]
     \<lparr>keys_stack = [''a'', ''item''], data_stack = [PRef 0, PGen], target = [''a'', ''item''],
       store = [PDict [(''a'', PGen)]], first = False, yield_flag = False\<rparr> =
     ([PNum 1, PNum 2],
      Inr \<lparr>keys_stack = [], data_stack = [], target = [''a'', ''item''],
       store = [PDict [(''a'', PGen), (''b'', PNum 3)], PList [PNum 1, PNum 2]],
       first = False, yield_flag = True\<rparr>)"
    by code_simp
  have c3: "never_overwritten 0 ''a'' [number 1, number 2, end_array, map_key ''b'', number 3, end_map]
     \<lparr>keys_stack = [''a'', ''item''], data_stack = [PRef 0, PGen], target = [''a'', ''item''],
       store = [PDict [(''a'', PGen)]], first = False, yield_flag = False\<rparr>"
    by code_simp
  have c4: "json_generator [number 1, end_array, start_array, number 2, end_array, end_array, end_map]
     \<lparr>keys_stack = [''x'', ''item'', ''item''], data_stack = [PRef 0, PRef 1, PGen],
       target = [''x'', ''item'', ''item''], store = [PDict [(''x'', PRef 1)], PList [PGen]],
       first = False, yield_flag = False\<rparr> =
     ([PNum 1, PNone, PNum 2],
      Inr \<lparr>keys_stack = [], data_stack = [], target = [''x'', ''item'', ''item''],
       store = [PDict [(''x'', PRef 1)], PList [PGen, PRef 3], PList [PNum 1], PList [PNum 2]],
       first = False, yield_flag = True\<rparr>)"
    by code_simp
  note inst = generator_object_kept_in_parent
      [where evs = "events_of (JObj [(''a'', JArr [JNum 1, JNum 2]), (''b'', JNum 3)])"
         and prefix = "Inl ''a.item''"
         and s = "\<lparr>keys_stack = [''a'', ''item''], data_stack = [PRef 0, PGen], target = [''a'', ''item''],
       store = [PDict [(''a'', PGen)]], first = False, yield_flag = False\<rparr>"
         and rest = "[number 1, number 2, end_array, map_key ''b'', number 3, end_map]"
         and t = "\<lparr>keys_stack = [''a'', ''item''], data_stack = [PRef 0, PGen], target = [''a'', ''item''],
       store = [PDict [(''a'', PGen)]], first = False, yield_flag = False\<rparr>"
         and p = 0 and k = "''a''" and i = 0
         and parser = "[number 1, number 2, end_array, map_key ''b'', number 3, end_map]"
         and ys = "[PNum 1, PNum 2]"
         and t' = "\<lparr>keys_stack = [], data_stack = [], target = [''a'', ''item''],
       store = [PDict [(''a'', PGen), (''b'', PNum 3)], PList [PNum 1, PNum 2]],
       first = False, yield_flag = True\<rparr>"
         and u = "\<lparr>keys_stack = [''x'', ''item'', ''item''], data_stack = [PRef 0, PRef 1, PGen],
       target = [''x'', ''item'', ''item''], store = [PDict [(''x'', PRef 1)], PList [PGen]],
       first = False, yield_flag = False\<rparr>"
         and q = 1 and k' = "''x''" and j = 0
         and parser' = "[number 1, end_array, start_array, number 2, end_array, end_array, end_map]"
         and zs = "[PNum 1, PNone, PNum 2]"
         and u' = "\<lparr>keys_stack = [], data_stack = [], target = [''x'', ''item'', ''item''],
       store = [PDict [(''x'', PRef 1)], PList [PGen, PRef 3], PList [PNum 1], PList [PNum 2]],
       first = False, yield_flag = True\<rparr>"
         and w = "\<lparr>keys_stack = [''a'', ''item''], data_stack = [PRef 0, PGen], target = [''a'', ''item''],
       store = [PDict [(''a'', PGen)]], first = False, yield_flag = False\<rparr>"
         and vs = "[JNum 1, JArr [JNum 5]]"
         and prefix' = "Inl ''a.item''" and key = "''a''"
         and pre = "[(''z'', JObj [(''q'', JArr [JNum 0])])]"
         and elems = "[JNum 1, JNum 2]" and post = "[(''b'', JNum 3)]"]
  have c6: "target (ijsondict_init (Inl ''a.item'')) = [''a'', ''item'']"
    by code_simp
  from inst c1 obtain ds where ds: "[PRef 0, PGen] = ds @ [PGen]"
    "ds \<noteq> [] \<longrightarrow> (\<exists>p i. last ds = PRef p \<and> gen_at [PDict [(''a'', PGen)]] p ''a'' i)"
    by auto
  from ds(1) have "butlast [PRef 0, PGen] = butlast (ds @ [PGen])" by simp
  then have "ds = [PRef 0]" by simp
  with ds(2) have c5: "\<exists>p i. last [PRef 0] = PRef p \<and> gen_at [PDict [(''a'', PGen)]] p ''a'' i"
    by simp
  show ?thesis
    using inst c1 c2 c3 c4 c5 c6 by (simp add: gen_at_def)
qed

end
